theory Spec2Isabelle
  imports Complex_Main "HOL-Library.Word"
begin

section \<open>Outcomes of C++ code\<close>

text \<open>
  The repository is C++ behind a JNI boundary. A call either returns, throws an exception
  (which the \<^verbatim>\<open>try\<close> blocks of \<^verbatim>\<open>native-lib.cpp\<close> catch), or has undefined behaviour
  (which nothing catches: the hosting process may crash). The state at a throw is kept,
  since the caller goes on with it.
\<close>

type_synonym byte = "8 word"

datatype undefined_behaviour =
  NullPointer | DanglingPointer | OutOfBoundsRead | OutOfBoundsWrite | SignedOverflow

datatype exception = CvException string | StdException string | UnknownException

datatype ('a, 's) outcome = Ok 'a 's | Throws exception 's | Undefined undefined_behaviour

definition then_do ::
  "('a, 's) outcome \<Rightarrow> ('a \<Rightarrow> 's \<Rightarrow> ('b, 's) outcome) \<Rightarrow> ('b, 's) outcome" where
  "then_do m f =
     (case m of Ok x s \<Rightarrow> f x s | Throws e s \<Rightarrow> Throws e s | Undefined u \<Rightarrow> Undefined u)"

section \<open>Memory and the Android log\<close>

text \<open>
  Pixel storage is a store of blocks: a block identifier maps to the bytes of the block.
  \<open>brk\<close> is the next unused identifier, \<open>garbage\<close> gives the indeterminate contents of
  a block that has just been allocated. \<open>logcat\<close> collects the lines written through
  \<^verbatim>\<open>__android_log_print\<close>: priority, tag, format string and arguments.
\<close>

datatype priority = DEBUG | INFO | ERROR

datatype log_arg = ArgInt int | ArgNat nat | ArgStr string

type_synonym log_entry = "priority \<times> string \<times> string \<times> log_arg list"

record sys =
  heap :: "nat \<Rightarrow> byte list option"
  brk :: nat
  garbage :: "nat \<Rightarrow> nat \<Rightarrow> byte"
  logcat :: "log_entry list"

definition log_print :: "priority \<Rightarrow> string \<Rightarrow> string \<Rightarrow> log_arg list \<Rightarrow> sys \<Rightarrow> sys" where
  "log_print p t f as s = s\<lparr>logcat := logcat s @ [(p, t, f, as)]\<rparr>"

definition alloc :: "nat \<Rightarrow> sys \<Rightarrow> nat \<times> sys" where
  "alloc n s =
     (brk s, s\<lparr>heap := (heap s)(brk s \<mapsto> map (garbage s (brk s)) [0..<n]), brk := Suc (brk s)\<rparr>)"

definition dealloc :: "nat \<Rightarrow> sys \<Rightarrow> sys" where
  "dealloc a s = s\<lparr>heap := (heap s)(a := None)\<rparr>"

text \<open>
  A pointer is a block and a byte offset into it; \<open>None\<close> is the null pointer.
  \<open>load\<close> reads the range \<^verbatim>\<open>[p, p + n)\<close>, as \<^verbatim>\<open>std::vector::assign\<close> and
  \<^verbatim>\<open>insert\<close> do with a pair of pointers; an empty range reads nothing.
\<close>

definition load :: "nat option \<Rightarrow> nat \<Rightarrow> nat \<Rightarrow> sys \<Rightarrow> undefined_behaviour + byte list" where
  "load p off n s =
     (if n = 0 then Inr []
      else case p of
        None \<Rightarrow> Inl NullPointer
      | Some a \<Rightarrow>
          (case heap s a of
             None \<Rightarrow> Inl DanglingPointer
           | Some blk \<Rightarrow>
               if off + n \<le> length blk then Inr (take n (drop off blk))
               else Inl OutOfBoundsRead))"

definition store :: "nat option \<Rightarrow> nat \<Rightarrow> byte list \<Rightarrow> sys \<Rightarrow> undefined_behaviour + sys" where
  "store p off bs s =
     (case p of
        None \<Rightarrow> Inl NullPointer
      | Some a \<Rightarrow>
          (case heap s a of
             None \<Rightarrow> Inl DanglingPointer
           | Some blk \<Rightarrow>
               if off + length bs \<le> length blk
               then Inr (s\<lparr>heap := (heap s)(a \<mapsto> take off blk @ bs @ drop (off + length bs) blk)\<rparr>)
               else Inl OutOfBoundsWrite))"

text \<open>
  \<^verbatim>\<open>int\<close> is 32 bits wide; a signed product outside its range is undefined behaviour.
  \<^verbatim>\<open>size_t\<close> is 64 bits wide; converting a negative \<^verbatim>\<open>int\<close> to it wraps.
\<close>

definition INT_MAX :: int where
  "INT_MAX = 2147483647"

definition INT_MIN :: int where
  "INT_MIN = - 2147483648"

definition int_mul :: "int \<Rightarrow> int \<Rightarrow> undefined_behaviour + int" where
  "int_mul a b = (if INT_MIN \<le> a * b \<and> a * b \<le> INT_MAX then Inr (a * b) else Inl SignedOverflow)"

definition to_size_t :: "int \<Rightarrow> nat" where
  "to_size_t n = nat (n mod 2 ^ 64)"

text \<open>
  \<^verbatim>\<open>memcpy(dst, src, n)\<close>, where the source is the caller's frame: \<open>src\<close> holds the
  bytes that may be read through the source pointer. Reading or writing beyond either
  range, and a null destination, are undefined behaviour.
\<close>

definition memcpy :: "nat option \<Rightarrow> nat \<Rightarrow> byte list \<Rightarrow> nat \<Rightarrow> sys \<Rightarrow> undefined_behaviour + sys" where
  "memcpy dst off src n s =
     (if length src < n then Inl OutOfBoundsRead else store dst off (take n src) s)"

section \<open>The image type of the vision library\<close>

text \<open>
  \<^verbatim>\<open>cv::Mat\<close> is a header over shared pixel storage: the numbers of rows and columns,
  the size of one element in bytes, the distance \<open>step\<close> in bytes between the starts of
  two consecutive rows, the continuity flag and the data pointer. The type belongs to
  OpenCV, which is not part of the repository; the three operations below follow the
  library's documentation.
\<close>

record Mat =
  rows :: int
  cols :: int
  elemSize :: nat
  step :: nat
  isContinuous :: bool
  data :: "nat option"
  data_off :: nat

definition Mat_empty :: Mat where
  "Mat_empty = \<lparr>rows = 0, cols = 0, elemSize = 1, step = 0, isContinuous = False,
                data = None, data_off = 0\<rparr>"

definition Mat_total :: "Mat \<Rightarrow> nat" where
  "Mat_total m = nat (rows m) * nat (cols m)"

definition Mat_fresh :: "int \<Rightarrow> int \<Rightarrow> nat \<Rightarrow> Mat" where
  "Mat_fresh r c a = \<lparr>rows = r, cols = c, elemSize = 1, step = nat c, isContinuous = True,
                       data = Some a, data_off = 0\<rparr>"

text \<open>
  \<^verbatim>\<open>Mat::release\<close>: the processor's buffers are the only owners of their storage
  whenever \<^verbatim>\<open>create\<close> runs (the views handed to the JNI functions are locals that are
  gone before the next call), so releasing frees the block.
\<close>

definition Mat_release :: "Mat \<Rightarrow> sys \<Rightarrow> Mat \<times> sys" where
  "Mat_release m s =
     (m\<lparr>rows := 0, cols := 0, data := None, data_off := 0\<rparr>,
      case data m of None \<Rightarrow> s | Some a \<Rightarrow> dealloc a s)"

text \<open>
  \<^verbatim>\<open>Mat::create(rows, cols, CV_8UC1)\<close>: nothing happens when the matrix already has
  this shape, this type and storage. Otherwise the old storage is released, a negative
  size fails the library's assertion (a \<^verbatim>\<open>cv::Exception\<close>), a matrix of no elements
  gets no storage, and any other gets a fresh continuous block of \<open>rows * cols\<close> bytes.
\<close>

definition Mat_create :: "int \<Rightarrow> int \<Rightarrow> Mat \<Rightarrow> sys \<Rightarrow> (unit, Mat \<times> sys) outcome" where
  "Mat_create r c m s =
     (if rows m = r \<and> cols m = c \<and> elemSize m = 1 \<and> data m \<noteq> None then Ok () (m, s)
      else
        let (m0, s0) = Mat_release m s in
        if r < 0 \<or> c < 0 then Throws (CvException ''s >= 0'') (m0, s0)
        else if nat r * nat c = 0
        then Ok () (m0\<lparr>rows := r, cols := c, elemSize := 1, step := nat c,
                        isContinuous := True\<rparr>, s0)
        else
          let (a, s1) = alloc (nat r * nat c) s0 in Ok () (Mat_fresh r c a, s1))"

section \<open>The edge processor\<close>

text \<open>
  \<^verbatim>\<open>class EdgeProcessor\<close> of \<^verbatim>\<open>edge_processor.h\<close>. The thresholds are C++ doubles; the
  code only stores them and hands them to the library, so they are modelled as reals.
\<close>

record EdgeProcessor =
  cannyThreshold1 :: real
  cannyThreshold2 :: real
  cannyApertureSize :: int
  grayBuffer :: Mat
  blurredBuffer :: Mat
  edgesBuffer :: Mat
  lastWidth :: int
  lastHeight :: int

definition EdgeProcessor_new :: "sys \<Rightarrow> EdgeProcessor \<times> sys" where
  "EdgeProcessor_new s =
     (\<lparr>cannyThreshold1 = 50, cannyThreshold2 = 150, cannyApertureSize = 3,
       grayBuffer = Mat_empty, blurredBuffer = Mat_empty, edgesBuffer = Mat_empty,
       lastWidth = 0, lastHeight = 0\<rparr>,
      log_print DEBUG ''EdgeProcessor''
        ''EdgeProcessor initialized with buffer reuse optimization'' [] s)"

definition setCannyThresholds :: "real \<Rightarrow> real \<Rightarrow> EdgeProcessor \<Rightarrow> EdgeProcessor" where
  "setCannyThresholds threshold1 threshold2 this =
     this\<lparr>cannyThreshold1 := threshold1, cannyThreshold2 := threshold2\<rparr>"

text \<open>
  \<^verbatim>\<open>yuv420ToGray\<close>: the gray buffer is created anew only when its shape differs from
  the requested one; then \<open>width * height\<close> bytes of the frame are copied into it, and a
  view of the buffer is returned. \<open>yuvData\<close> holds the bytes readable through the
  pointer of that name.
\<close>

definition yuv420ToGray ::
  "byte list \<Rightarrow> int \<Rightarrow> int \<Rightarrow> EdgeProcessor \<Rightarrow> sys \<Rightarrow> (Mat, EdgeProcessor \<times> sys) outcome" where
  "yuv420ToGray yuvData width height this s =
     then_do
       (if cols (grayBuffer this) \<noteq> width \<or> rows (grayBuffer this) \<noteq> height
        then (case Mat_create height width (grayBuffer this) s of
                Ok _ (g, s1) \<Rightarrow>
                  Ok () (this\<lparr>grayBuffer := g, lastWidth := width, lastHeight := height\<rparr>, s1)
              | Throws e (g, s1) \<Rightarrow> Throws e (this\<lparr>grayBuffer := g\<rparr>, s1)
              | Undefined u \<Rightarrow> Undefined u)
        else Ok () (this, s))
       (\<lambda>_ (this1, s1).
          case int_mul width height of
            Inl u \<Rightarrow> Undefined u
          | Inr n \<Rightarrow>
              (case memcpy (data (grayBuffer this1)) (data_off (grayBuffer this1))
                      yuvData (to_size_t n) s1 of
                 Inl u \<Rightarrow> Undefined u
               | Inr s2 \<Rightarrow> Ok (grayBuffer this1) (this1, s2)))"

definition processGrayscale ::
  "byte list \<Rightarrow> int \<Rightarrow> int \<Rightarrow> EdgeProcessor \<Rightarrow> sys \<Rightarrow> (Mat, EdgeProcessor \<times> sys) outcome" where
  "processGrayscale yuvData width height this s = yuv420ToGray yuvData width height this s"

text \<open>
  The two library routines the processor calls. Each reads the source image, gives the
  destination the shape of the source (\<^verbatim>\<open>dst.create(src.size(), src.type())\<close>) and fills
  every element of it. What the library computes is not part of the repository: the value
  of output element \<open>k\<close> is a parameter, a function of the routine's arguments and the
  source pixels.
\<close>

record opencv =
  blur_px :: "nat \<times> nat \<Rightarrow> real \<Rightarrow> int \<Rightarrow> int \<Rightarrow> byte list \<Rightarrow> nat \<Rightarrow> byte"
  canny_px :: "real \<Rightarrow> real \<Rightarrow> int \<Rightarrow> int \<Rightarrow> int \<Rightarrow> byte list \<Rightarrow> nat \<Rightarrow> byte"

definition row_len :: "Mat \<Rightarrow> nat" where
  "row_len m = nat (cols m) * elemSize m"

fun load_rows :: "Mat \<Rightarrow> sys \<Rightarrow> nat list \<Rightarrow> undefined_behaviour + byte list" where
  "load_rows m s [] = Inr []"
| "load_rows m s (i # is) =
     (case load (data m) (data_off m + i * step m) (row_len m) s of
        Inl u \<Rightarrow> Inl u
      | Inr r \<Rightarrow> (case load_rows m s is of Inl u \<Rightarrow> Inl u | Inr rs \<Rightarrow> Inr (r @ rs)))"

definition Mat_read :: "Mat \<Rightarrow> sys \<Rightarrow> undefined_behaviour + byte list" where
  "Mat_read m s = load_rows m s [0..<nat (rows m)]"

fun store_rows :: "Mat \<Rightarrow> byte list \<Rightarrow> nat list \<Rightarrow> sys \<Rightarrow> undefined_behaviour + sys" where
  "store_rows m px [] s = Inr s"
| "store_rows m px (i # is) s =
     (case store (data m) (data_off m + i * step m)
             (take (row_len m) (drop (i * row_len m) px)) s of
        Inl u \<Rightarrow> Inl u
      | Inr s1 \<Rightarrow> store_rows m px is s1)"

definition Mat_write :: "Mat \<Rightarrow> byte list \<Rightarrow> sys \<Rightarrow> undefined_behaviour + sys" where
  "Mat_write m px s = store_rows m px [0..<nat (rows m)] s"

definition cv_filter ::
  "(int \<Rightarrow> int \<Rightarrow> byte list \<Rightarrow> nat \<Rightarrow> byte) \<Rightarrow> Mat \<Rightarrow> Mat \<Rightarrow> sys \<Rightarrow> (unit, Mat \<times> sys) outcome" where
  "cv_filter f src dst s =
     (case Mat_read src s of
        Inl u \<Rightarrow> Undefined u
      | Inr px \<Rightarrow>
          then_do (Mat_create (rows src) (cols src) dst s)
            (\<lambda>_ (d, s1).
               case Mat_write d (map (f (rows src) (cols src) px) [0..<Mat_total d]) s1 of
                 Inl u \<Rightarrow> Undefined u
               | Inr s2 \<Rightarrow> Ok () (d, s2)))"

definition cv_GaussianBlur ::
  "opencv \<Rightarrow> Mat \<Rightarrow> Mat \<Rightarrow> nat \<times> nat \<Rightarrow> real \<Rightarrow> sys \<Rightarrow> (unit, Mat \<times> sys) outcome" where
  "cv_GaussianBlur lib src dst ksize sigmaX s = cv_filter (blur_px lib ksize sigmaX) src dst s"

definition cv_Canny ::
  "opencv \<Rightarrow> Mat \<Rightarrow> Mat \<Rightarrow> real \<Rightarrow> real \<Rightarrow> int \<Rightarrow> sys \<Rightarrow> (unit, Mat \<times> sys) outcome" where
  "cv_Canny lib src dst threshold1 threshold2 apertureSize s =
     cv_filter (canny_px lib threshold1 threshold2 apertureSize) src dst s"

text \<open>
  A library call on one of the processor's buffers: the buffer is a member of the
  processor, so whatever the call makes of it is the member afterwards, also at a throw.
\<close>

definition on_member ::
  "(Mat \<Rightarrow> EdgeProcessor \<Rightarrow> EdgeProcessor) \<Rightarrow> EdgeProcessor \<Rightarrow> (unit, Mat \<times> sys) outcome \<Rightarrow>
   (unit, EdgeProcessor \<times> sys) outcome" where
  "on_member upd this r =
     (case r of
        Ok _ (m, s) \<Rightarrow> Ok () (upd m this, s)
      | Throws e (m, s) \<Rightarrow> Throws e (upd m this, s)
      | Undefined u \<Rightarrow> Undefined u)"

text \<open>
  \<^verbatim>\<open>processCanny\<close>: gray conversion, then the blur and edge buffers are created anew
  only when their shape differs from the requested one, then the 5 by 5 Gaussian blur
  with sigma 1.5 into the blur buffer and Canny with the processor's thresholds and
  aperture into the edge buffer, a view of which is returned.
\<close>

definition processCanny ::
  "opencv \<Rightarrow> byte list \<Rightarrow> int \<Rightarrow> int \<Rightarrow> EdgeProcessor \<Rightarrow> sys \<Rightarrow>
   (Mat, EdgeProcessor \<times> sys) outcome" where
  "processCanny lib yuvData width height this s =
     then_do (yuv420ToGray yuvData width height this s)
       (\<lambda>grayMat (this1, s1).
     then_do
       (if cols (blurredBuffer this1) \<noteq> width \<or> rows (blurredBuffer this1) \<noteq> height
        then on_member (\<lambda>m p. p\<lparr>blurredBuffer := m\<rparr>) this1
               (Mat_create height width (blurredBuffer this1) s1)
        else Ok () (this1, s1))
       (\<lambda>_ (this2, s2).
     then_do
       (if cols (edgesBuffer this2) \<noteq> width \<or> rows (edgesBuffer this2) \<noteq> height
        then on_member (\<lambda>m p. p\<lparr>edgesBuffer := m\<rparr>) this2
               (Mat_create height width (edgesBuffer this2) s2)
        else Ok () (this2, s2))
       (\<lambda>_ (this3, s3).
     then_do
       (on_member (\<lambda>m p. p\<lparr>blurredBuffer := m\<rparr>) this3
          (cv_GaussianBlur lib grayMat (blurredBuffer this3) (5, 5) (3 / 2) s3))
       (\<lambda>_ (this4, s4).
     then_do
       (on_member (\<lambda>m p. p\<lparr>edgesBuffer := m\<rparr>) this4
          (cv_Canny lib (blurredBuffer this4) (edgesBuffer this4)
             (cannyThreshold1 this4) (cannyThreshold2 this4) (cannyApertureSize this4) s4))
       (\<lambda>_ (this5, s5). Ok (edgesBuffer this5) (this5, s5))))))"

text \<open>
  \<^verbatim>\<open>matToByteArray\<close>: a continuous matrix is copied as one range of
  \<open>total * elemSize\<close> bytes from the data pointer; otherwise the loop appends row after
  row, each \<open>cols * elemSize\<close> bytes from \<^verbatim>\<open>mat.ptr(i)\<close>, which is \<open>step\<close> bytes after the
  row before.
\<close>

fun insert_rows :: "Mat \<Rightarrow> sys \<Rightarrow> nat list \<Rightarrow> byte list \<Rightarrow> undefined_behaviour + byte list" where
  "insert_rows mat s [] byteArray = Inr byteArray"
| "insert_rows mat s (i # is) byteArray =
     (case load (data mat) (data_off mat + i * step mat) (nat (cols mat) * elemSize mat) s of
        Inl u \<Rightarrow> Inl u
      | Inr r \<Rightarrow> insert_rows mat s is (byteArray @ r))"

definition matToByteArray :: "Mat \<Rightarrow> sys \<Rightarrow> undefined_behaviour + byte list" where
  "matToByteArray mat s =
     (if isContinuous mat
      then load (data mat) (data_off mat) (Mat_total mat * elemSize mat) s
      else insert_rows mat s [0..<nat (rows mat)] [])"

section \<open>The JNI entry points\<close>

text \<open>
  What the Java side and the clock decide: whether \<^verbatim>\<open>GetByteArrayElements\<close> yields the
  elements, whether \<^verbatim>\<open>NewByteArray\<close> of a given length succeeds, and the measured
  duration. The frame is the Java byte array itself, so the bytes readable through
  \<^verbatim>\<open>inputBytes\<close> are exactly its elements. The global \<^verbatim>\<open>g_edgeProcessor\<close> is \<open>None\<close>
  while it is the null pointer.
\<close>

record JNIEnv =
  GetByteArrayElements_ok :: bool
  NewByteArray_ok :: "nat \<Rightarrow> bool"
  elapsed_ms :: int

type_synonym jni_state = "EdgeProcessor option \<times> sys"

definition ensureEdgeProcessorInitialized :: "jni_state \<Rightarrow> EdgeProcessor \<times> sys" where
  "ensureEdgeProcessorInitialized gs =
     (case fst gs of None \<Rightarrow> EdgeProcessor_new (snd gs) | Some p \<Rightarrow> (p, snd gs))"

definition LOGE :: "string \<Rightarrow> log_arg list \<Rightarrow> sys \<Rightarrow> sys" where
  "LOGE f as s = log_print ERROR ''EdgeVision-Native'' f as s"

definition LOGI :: "string \<Rightarrow> log_arg list \<Rightarrow> sys \<Rightarrow> sys" where
  "LOGI f as s = log_print INFO ''EdgeVision-Native'' f as s"

definition LOGD :: "string \<Rightarrow> log_arg list \<Rightarrow> sys \<Rightarrow> sys" where
  "LOGD f as s = log_print DEBUG ''EdgeVision-Native'' f as s"

definition catch_all :: "string \<Rightarrow> exception \<Rightarrow> sys \<Rightarrow> sys" where
  "catch_all name e s =
     (case e of
        CvException what \<Rightarrow> LOGE (''OpenCV exception in '' @ name @ '': %s'') [ArgStr what] s
      | StdException what \<Rightarrow> LOGE (''Standard exception in '' @ name @ '': %s'') [ArgStr what] s
      | UnknownException \<Rightarrow> LOGE (''Unknown exception in '' @ name) [] s)"

text \<open>
  The body shared by \<^verbatim>\<open>processFrameCanny\<close> and \<^verbatim>\<open>processFrameGrayscale\<close>, which differ
  in the processor routine they call and in the words of their log lines.
\<close>

definition process_frame ::
  "string \<Rightarrow> string \<Rightarrow>
   (byte list \<Rightarrow> int \<Rightarrow> int \<Rightarrow> EdgeProcessor \<Rightarrow> sys \<Rightarrow> (Mat, EdgeProcessor \<times> sys) outcome) \<Rightarrow>
   JNIEnv \<Rightarrow> byte list \<Rightarrow> int \<Rightarrow> int \<Rightarrow> jni_state \<Rightarrow> (byte list option, jni_state) outcome" where
  "process_frame name label routine env inputData width height gs =
     (let (p, s) = ensureEdgeProcessorInitialized gs in
      if \<not> GetByteArrayElements_ok env
      then Ok None (Some p, LOGE ''Failed to get input bytes'' [] s)
      else if width \<le> 0 \<or> height \<le> 0
      then Ok None (Some p, LOGE ''Invalid dimensions: %dx%d'' [ArgInt width, ArgInt height] s)
      else
        (case routine inputData width height p s of
           Undefined u \<Rightarrow> Undefined u
         | Throws e (p1, s1) \<Rightarrow> Ok None (Some p1, catch_all name e s1)
         | Ok mat (p1, s1) \<Rightarrow>
             (case matToByteArray mat s1 of
                Inl u \<Rightarrow> Undefined u
              | Inr resultBytes \<Rightarrow>
                  if \<not> NewByteArray_ok env (length resultBytes)
                  then Ok None (Some p1, LOGE ''Failed to allocate output array'' [] s1)
                  else Ok (Some resultBytes)
                         (Some p1,
                          LOGI (label @ '' processing: %dx%d in %lld ms, output: %zu bytes'')
                            [ArgInt width, ArgInt height, ArgInt (elapsed_ms env),
                             ArgNat (length resultBytes)] s1))))"

definition processFrameCanny ::
  "opencv \<Rightarrow> JNIEnv \<Rightarrow> byte list \<Rightarrow> int \<Rightarrow> int \<Rightarrow> jni_state \<Rightarrow>
   (byte list option, jni_state) outcome" where
  "processFrameCanny lib env inputData width height gs =
     process_frame ''processCanny'' ''Canny'' (processCanny lib) env inputData width height gs"

definition processFrameGrayscale ::
  "JNIEnv \<Rightarrow> byte list \<Rightarrow> int \<Rightarrow> int \<Rightarrow> jni_state \<Rightarrow> (byte list option, jni_state) outcome" where
  "processFrameGrayscale env inputData width height gs =
     process_frame ''processGrayscale'' ''Grayscale'' processGrayscale env inputData width height gs"

text \<open>
  \<^verbatim>\<open>processFrameToBitmap\<close> writes one debug line and returns the null object. It does
  not touch the frame, the processor or \<^verbatim>\<open>g_edgeProcessor\<close>.
\<close>

definition processFrameToBitmap ::
  "byte list \<Rightarrow> int \<Rightarrow> int \<Rightarrow> int \<Rightarrow> jni_state \<Rightarrow> (nat option, jni_state) outcome" where
  "processFrameToBitmap inputData width height processingType gs =
     Ok None (fst gs, LOGD ''processFrameToBitmap: %dx%d, type=%d''
                        [ArgInt width, ArgInt height, ArgInt processingType] (snd gs))"

section \<open>Well-formed buffers\<close>

text \<open>
  A buffer of the processor is either the empty matrix it was constructed as, or a
  matrix that \<^verbatim>\<open>create\<close> has given a block of its own: one byte per element, rows
  without gaps, the data pointer at the start of a live block of \<open>rows * cols\<close> bytes.
\<close>

definition buffer_ok :: "sys \<Rightarrow> Mat \<Rightarrow> bool" where
  "buffer_ok s m \<longleftrightarrow>
     m = Mat_empty \<or>
     (case data m of
        None \<Rightarrow> False
      | Some a \<Rightarrow>
          elemSize m = 1 \<and> step m = nat (cols m) \<and> isContinuous m \<and> data_off m = 0 \<and>
          0 < rows m \<and> 0 < cols m \<and> a < brk s \<and>
          (case heap s a of None \<Rightarrow> False | Some blk \<Rightarrow> length blk = Mat_total m))"

text \<open>The memory after \<^verbatim>\<open>create\<close> has released the old block and allocated a new one.\<close>

definition realloc_sys :: "int \<Rightarrow> int \<Rightarrow> Mat \<Rightarrow> sys \<Rightarrow> sys" where
  "realloc_sys r c m s = snd (alloc (nat r * nat c) (snd (Mat_release m s)))"

text \<open>A memory with no block and an empty log, for concrete runs.\<close>

definition sys0 :: sys where
  "sys0 = \<lparr>heap = Map.empty, brk = 0, garbage = (\<lambda>_ _. 0), logcat = []\<rparr>"

section \<open>Row-major serialisation\<close>

text \<open>
  What the specification asks of \<^verbatim>\<open>toFlatBytes\<close>, in its own words: the rows of the image
  one after the other. Row \<open>i\<close> of an image over a block is the \<open>cols * elemSize\<close> bytes
  that start \<open>i * step\<close> bytes after the first element. \<open>image_ok\<close> says that a header
  describes an image: sizes are not negative, the continuity flag is set only when the
  rows have no gaps between them (or there is at most one row), and an image that has
  bytes lies within a live block.
\<close>

definition Mat_block :: "sys \<Rightarrow> Mat \<Rightarrow> byte list" where
  "Mat_block s m =
     (case data m of None \<Rightarrow> [] | Some a \<Rightarrow> (case heap s a of None \<Rightarrow> [] | Some blk \<Rightarrow> blk))"

definition Mat_row :: "byte list \<Rightarrow> Mat \<Rightarrow> nat \<Rightarrow> byte list" where
  "Mat_row blk m i = take (nat (cols m) * elemSize m) (drop (data_off m + i * step m) blk)"

definition row_major :: "byte list \<Rightarrow> Mat \<Rightarrow> byte list" where
  "row_major blk m = concat (map (Mat_row blk m) [0..<nat (rows m)])"

definition image_ok :: "sys \<Rightarrow> Mat \<Rightarrow> bool" where
  "image_ok s m \<longleftrightarrow>
     0 \<le> rows m \<and> 0 \<le> cols m \<and>
     (isContinuous m \<longrightarrow> step m = nat (cols m) * elemSize m \<or> rows m \<le> 1) \<and>
     (Mat_total m * elemSize m = 0 \<or>
      (case data m of
         None \<Rightarrow> False
       | Some a \<Rightarrow>
           (case heap s a of
              None \<Rightarrow> False
            | Some blk \<Rightarrow>
                data_off m + (nat (rows m) - 1) * step m + nat (cols m) * elemSize m
                  \<le> length blk)))"

definition strided_sys :: sys where
  "strided_sys = \<lparr>heap = [0 \<mapsto> [1, 2, 3, 4, 5, 6, 7, 8, 9, 10, 11, 12]], brk = 1,
                   garbage = (\<lambda>_ _. 0), logcat = []\<rparr>"

definition strided_Mat :: Mat where
  "strided_Mat = \<lparr>rows = 2, cols = 3, elemSize = 1, step = 4, isContinuous = False,
                   data = Some 0, data_off = 1\<rparr>"

section \<open>The processor's invariant and its expected results\<close>

text \<open>
  The three buffers of a processor are well formed and no two of them share a block.
  \<open>ensured_Mat\<close> and \<open>ensured_sys\<close> are the buffer and the memory after the check
  ``create anew if the shape differs'', \<open>store_px\<close> is the memory after a buffer has been
  filled, and \<open>blur_out\<close> and \<open>edges_out\<close> are the pixels the library computes for a frame.
\<close>

definition apart :: "Mat \<Rightarrow> Mat \<Rightarrow> bool" where
  "apart m m' \<longleftrightarrow> data m = None \<or> data m \<noteq> data m'"

definition processor_ok :: "sys \<Rightarrow> EdgeProcessor \<Rightarrow> bool" where
  "processor_ok s p \<longleftrightarrow>
     buffer_ok s (grayBuffer p) \<and> buffer_ok s (blurredBuffer p) \<and> buffer_ok s (edgesBuffer p) \<and>
     apart (grayBuffer p) (blurredBuffer p) \<and> apart (grayBuffer p) (edgesBuffer p) \<and>
     apart (blurredBuffer p) (edgesBuffer p)"

definition ensured_Mat :: "int \<Rightarrow> int \<Rightarrow> Mat \<Rightarrow> sys \<Rightarrow> Mat" where
  "ensured_Mat r c m s = (if cols m = c \<and> rows m = r then m else Mat_fresh r c (brk s))"

definition ensured_sys :: "int \<Rightarrow> int \<Rightarrow> Mat \<Rightarrow> sys \<Rightarrow> sys" where
  "ensured_sys r c m s = (if cols m = c \<and> rows m = r then s else realloc_sys r c m s)"

definition store_px :: "Mat \<Rightarrow> byte list \<Rightarrow> sys \<Rightarrow> sys" where
  "store_px m px s = (case data m of None \<Rightarrow> s | Some a \<Rightarrow> s\<lparr>heap := (heap s)(a \<mapsto> px)\<rparr>)"

definition ensured_this :: "int \<Rightarrow> int \<Rightarrow> EdgeProcessor \<Rightarrow> sys \<Rightarrow> EdgeProcessor" where
  "ensured_this w h p s =
     (if cols (grayBuffer p) = w \<and> rows (grayBuffer p) = h then p
      else p\<lparr>grayBuffer := Mat_fresh h w (brk s), lastWidth := w, lastHeight := h\<rparr>)"

definition blur_out :: "opencv \<Rightarrow> int \<Rightarrow> int \<Rightarrow> byte list \<Rightarrow> byte list" where
  "blur_out lib w h yuv =
     map (blur_px lib (5, 5) (3 / 2) h w (take (nat (w * h)) yuv)) [0..<nat h * nat w]"

definition edges_out :: "opencv \<Rightarrow> real \<Rightarrow> real \<Rightarrow> int \<Rightarrow> int \<Rightarrow> int \<Rightarrow> byte list \<Rightarrow> byte list" where
  "edges_out lib t1 t2 ap w h yuv =
     map (canny_px lib t1 t2 ap h w (blur_out lib w h yuv)) [0..<nat h * nat w]"

section \<open>Sequences of calls\<close>

text \<open>
  A client of one processor: it converts a frame to gray or to edges and serialises the
  view it gets, as the JNI functions do, or sets the thresholds. \<open>run\<close> makes the calls
  of a list one after the other on the same processor and collects the byte sequences.
  A frame is valid for a width and a height when both are positive, the frame has at
  least \<open>width * height\<close> bytes, and its length is one a Java array can have.
\<close>

datatype call = ToGray "byte list" int int | ToEdges "byte list" int int | SetThresholds real real

fun exec :: "opencv \<Rightarrow> call \<Rightarrow> EdgeProcessor \<times> sys \<Rightarrow> (byte list, EdgeProcessor \<times> sys) outcome" where
  "exec lib (ToGray yuv w h) (p, s) =
     then_do (processGrayscale yuv w h p s)
       (\<lambda>m (p1, s1). case matToByteArray m s1 of Inl u \<Rightarrow> Undefined u | Inr bs \<Rightarrow> Ok bs (p1, s1))"
| "exec lib (ToEdges yuv w h) (p, s) =
     then_do (processCanny lib yuv w h p s)
       (\<lambda>m (p1, s1). case matToByteArray m s1 of Inl u \<Rightarrow> Undefined u | Inr bs \<Rightarrow> Ok bs (p1, s1))"
| "exec lib (SetThresholds t1 t2) (p, s) = Ok [] (setCannyThresholds t1 t2 p, s)"

fun run :: "opencv \<Rightarrow> call list \<Rightarrow> EdgeProcessor \<times> sys \<Rightarrow>
    (byte list list, EdgeProcessor \<times> sys) outcome" where
  "run lib [] ps = Ok [] ps"
| "run lib (c # cs) ps =
     then_do (exec lib c ps)
       (\<lambda>out ps1. then_do (run lib cs ps1) (\<lambda>outs ps2. Ok (out # outs) ps2))"

definition valid_frame :: "byte list \<Rightarrow> int \<Rightarrow> int \<Rightarrow> bool" where
  "valid_frame yuv w h \<longleftrightarrow>
     0 < w \<and> 0 < h \<and> w * h \<le> int (length yuv) \<and> length yuv \<le> nat INT_MAX"

fun valid_call :: "call \<Rightarrow> bool" where
  "valid_call (ToGray yuv w h) = valid_frame yuv w h"
| "valid_call (ToEdges yuv w h) = valid_frame yuv w h"
| "valid_call (SetThresholds t1 t2) = True"

text \<open>
  What a call does to one buffer. When the buffer already has the requested shape it is
  the same matrix afterwards, on the same storage; otherwise its storage is a block whose
  identifier was unused before the call, different from the old one. Either way the
  buffer has the requested shape and a block of exactly \<open>width * height\<close> bytes.
  \<open>call_step\<close> says this of every buffer a call uses; the gray buffer then holds the
  first \<open>width * height\<close> bytes of the frame.
\<close>

definition buffer_step :: "int \<Rightarrow> int \<Rightarrow> sys \<Rightarrow> Mat \<Rightarrow> sys \<Rightarrow> Mat \<Rightarrow> bool" where
  "buffer_step w h s m s' m' \<longleftrightarrow>
     (if cols m = w \<and> rows m = h then m' = m
      else (case data m' of None \<Rightarrow> False | Some a \<Rightarrow> brk s \<le> a \<and> data m' \<noteq> data m)) \<and>
     rows m' = h \<and> cols m' = w \<and>
     (case data m' of
        None \<Rightarrow> False
      | Some a \<Rightarrow> (case heap s' a of None \<Rightarrow> False | Some blk \<Rightarrow> int (length blk) = w * h))"

fun call_step :: "call \<Rightarrow> EdgeProcessor \<times> sys \<Rightarrow> EdgeProcessor \<times> sys \<Rightarrow> bool" where
  "call_step (ToGray yuv w h) (p, s) (p', s') \<longleftrightarrow>
     buffer_step w h s (grayBuffer p) s' (grayBuffer p') \<and>
     Mat_block s' (grayBuffer p') = take (nat (w * h)) yuv \<and>
     blurredBuffer p' = blurredBuffer p \<and> edgesBuffer p' = edgesBuffer p"
| "call_step (ToEdges yuv w h) (p, s) (p', s') \<longleftrightarrow>
     buffer_step w h s (grayBuffer p) s' (grayBuffer p') \<and>
     Mat_block s' (grayBuffer p') = take (nat (w * h)) yuv \<and>
     buffer_step w h s (blurredBuffer p) s' (blurredBuffer p') \<and>
     buffer_step w h s (edgesBuffer p) s' (edgesBuffer p')"
| "call_step (SetThresholds t1 t2) (p, s) (p', s') \<longleftrightarrow>
     grayBuffer p' = grayBuffer p \<and> blurredBuffer p' = blurredBuffer p \<and>
     edgesBuffer p' = edgesBuffer p \<and> heap s' = heap s"

definition newly_allocated :: "sys \<Rightarrow> Mat \<Rightarrow> bool" where
  "newly_allocated s m = (case data m of None \<Rightarrow> False | Some a \<Rightarrow> brk s \<le> a)"

text \<open>
  The claim about buffer reuse as it is worded: on every call, every one of the three
  buffers makes such a step for the width and height of the call.
\<close>

fun every_buffer_step :: "call \<Rightarrow> EdgeProcessor \<times> sys \<Rightarrow> EdgeProcessor \<times> sys \<Rightarrow> bool" where
  "every_buffer_step (ToGray yuv w h) (p, s) (p', s') \<longleftrightarrow>
     buffer_step w h s (grayBuffer p) s' (grayBuffer p') \<and>
     buffer_step w h s (blurredBuffer p) s' (blurredBuffer p') \<and>
     buffer_step w h s (edgesBuffer p) s' (edgesBuffer p')"
| "every_buffer_step (ToEdges yuv w h) (p, s) (p', s') \<longleftrightarrow>
     buffer_step w h s (grayBuffer p) s' (grayBuffer p') \<and>
     buffer_step w h s (blurredBuffer p) s' (blurredBuffer p') \<and>
     buffer_step w h s (edgesBuffer p) s' (edgesBuffer p')"
| "every_buffer_step (SetThresholds t1 t2) (p, s) (p', s') \<longleftrightarrow> True"

text \<open>The calls that leave the thresholds alone.\<close>

fun keeps_thresholds :: "call \<Rightarrow> bool" where
  "keeps_thresholds (SetThresholds t1 t2) = False"
| "keeps_thresholds (ToGray yuv w h) = True"
| "keeps_thresholds (ToEdges yuv w h) = True"

text \<open>A Java side on which nothing fails, a stand-in library and a frame, for concrete runs.\<close>

definition env0 :: JNIEnv where
  "env0 = \<lparr>GetByteArrayElements_ok = True, NewByteArray_ok = (\<lambda>_. True), elapsed_ms = 0\<rparr>"

definition lib0 :: opencv where
  "lib0 = \<lparr>blur_px = (\<lambda>_ _ _ _ px k. px ! k),
            canny_px = (\<lambda>t1 _ _ _ _ px k. if t1 \<le> real (unat (px ! k)) then 255 else 0)\<rparr>"

definition frame0 :: "byte list" where
  "frame0 = [10, 200, 30, 40, 128, 128]"

text \<open>
  Whether a call returned, and the state it left. \<open>after_edges\<close> is a new processor after
  edge detection on a 2 by 2 frame, \<open>after_gray\<close> the same processor after a gray
  conversion of 1 column and 3 rows.
\<close>

definition returned :: "('a, 's) outcome \<Rightarrow> bool" where
  "returned r = (case r of Ok _ _ \<Rightarrow> True | Throws _ _ \<Rightarrow> False | Undefined _ \<Rightarrow> False)"

definition final :: "('a, 's) outcome \<Rightarrow> 's \<Rightarrow> 's" where
  "final r d = (case r of Ok _ s \<Rightarrow> s | Throws _ s \<Rightarrow> s | Undefined _ \<Rightarrow> d)"

definition after_edges :: "EdgeProcessor \<times> sys" where
  "after_edges = final (run lib0 [ToEdges frame0 2 2] (EdgeProcessor_new sys0))
                   (EdgeProcessor_new sys0)"

definition after_gray :: "EdgeProcessor \<times> sys" where
  "after_gray = final (exec lib0 (ToGray frame0 1 3) after_edges) after_edges"

section \<open>Arithmetic and memory\<close>

lemma int_mul_ok: "0 \<le> a \<Longrightarrow> 0 \<le> b \<Longrightarrow> a * b \<le> INT_MAX \<Longrightarrow> int_mul a b = Inr (a * b)"
proof -
  assume "0 \<le> a" "0 \<le> b" and le: "a * b \<le> INT_MAX"
  then have "0 \<le> a * b" by simp
  with le show ?thesis by (simp add: int_mul_def INT_MIN_def)
qed

lemma to_size_t_id: "0 \<le> n \<Longrightarrow> n \<le> INT_MAX \<Longrightarrow> to_size_t n = nat n"
  by (simp add: to_size_t_def INT_MAX_def)

lemma memcpy_whole:
  "heap s a = Some blk \<Longrightarrow> length blk = n \<Longrightarrow> n \<le> length src \<Longrightarrow>
   memcpy (Some a) 0 src n s = Inr (s\<lparr>heap := (heap s)(a \<mapsto> take n src)\<rparr>)"
  by (simp add: memcpy_def store_def)

lemma Mat_create_new:
  "rows m \<noteq> r \<or> cols m \<noteq> c \<Longrightarrow> 0 < r \<Longrightarrow> 0 < c \<Longrightarrow>
   Mat_create r c m s =
     Ok () (Mat_fresh r c (brk s), snd (alloc (nat r * nat c) (snd (Mat_release m s))))"
  by (auto simp: Mat_create_def Mat_release_def alloc_def dealloc_def split: option.splits prod.splits)

lemma buffer_ok_shape:
  "buffer_ok s m \<Longrightarrow> 0 < rows m \<Longrightarrow>
   \<exists>a blk. data m = Some a \<and> data_off m = 0 \<and> a < brk s \<and> heap s a = Some blk \<and>
     length blk = nat (rows m) * nat (cols m) \<and> elemSize m = 1 \<and> step m = nat (cols m) \<and>
     isContinuous m \<and> 0 < cols m"
  by (auto simp: buffer_ok_def Mat_empty_def Mat_total_def split: option.splits)

lemma frame_fits:
  assumes "0 < w" "0 < h" "w * h \<le> int (length yuv)" "length yuv \<le> nat INT_MAX"
  shows "w * h \<le> INT_MAX" "0 \<le> w * h" "nat h * nat w = nat (w * h)" "nat (w * h) \<le> length yuv"
proof -
  show "w * h \<le> INT_MAX" using assms by (simp add: INT_MAX_def)
  show "0 \<le> w * h" using assms by simp
  show e: "nat h * nat w = nat (w * h)" using assms by (simp add: nat_mult_distrib mult.commute)
  show "nat (w * h) \<le> length yuv" using assms by simp
qed

lemma yuv420ToGray_reuse:
  assumes ok: "buffer_ok s (grayBuffer this)"
    and dims: "cols (grayBuffer this) = w" "rows (grayBuffer this) = h"
    and pos: "0 < w" "0 < h"
    and fits: "w * h \<le> int (length yuv)" "length yuv \<le> nat INT_MAX"
  shows "\<exists>a. data (grayBuffer this) = Some a \<and>
     yuv420ToGray yuv w h this s =
       Ok (grayBuffer this) (this, s\<lparr>heap := (heap s)(a \<mapsto> take (nat (w * h)) yuv)\<rparr>)"
proof -
  from buffer_ok_shape [OF ok] dims pos obtain a blk where
    a: "data (grayBuffer this) = Some a" "data_off (grayBuffer this) = 0"
       "heap s a = Some blk" "length blk = nat h * nat w"
    by auto
  note f = frame_fits [OF pos fits]
  have "memcpy (Some a) 0 yuv (nat (w * h)) s =
          Inr (s\<lparr>heap := (heap s)(a \<mapsto> take (nat (w * h)) yuv)\<rparr>)"
    using a f by (intro memcpy_whole) auto
  then show ?thesis
    using a dims f pos
    by (simp add: yuv420ToGray_def then_do_def int_mul_ok to_size_t_id)
qed

lemma realloc_sys_simps:
  "brk (realloc_sys r c m s) = Suc (brk s)"
  "heap (realloc_sys r c m s) (brk s) = Some (map (garbage s (brk s)) [0..<nat r * nat c])"
  "a \<noteq> brk s \<Longrightarrow> heap (realloc_sys r c m s) a = (if data m = Some a then None else heap s a)"
  "logcat (realloc_sys r c m s) = logcat s"
  "garbage (realloc_sys r c m s) = garbage s"
  by (auto simp: realloc_sys_def alloc_def Mat_release_def dealloc_def split: option.splits)

lemma yuv420ToGray_realloc:
  assumes dims: "cols (grayBuffer this) \<noteq> w \<or> rows (grayBuffer this) \<noteq> h"
    and pos: "0 < w" "0 < h"
    and fits: "w * h \<le> int (length yuv)" "length yuv \<le> nat INT_MAX"
  shows "yuv420ToGray yuv w h this s =
       Ok (Mat_fresh h w (brk s))
          (this\<lparr>grayBuffer := Mat_fresh h w (brk s), lastWidth := w, lastHeight := h\<rparr>,
           (realloc_sys h w (grayBuffer this) s)
             \<lparr>heap := (heap (realloc_sys h w (grayBuffer this) s))(brk s \<mapsto> take (nat (w * h)) yuv)\<rparr>)"
proof -
  note f = frame_fits [OF pos fits]
  let ?s1 = "realloc_sys h w (grayBuffer this) s"
  have c: "Mat_create h w (grayBuffer this) s = Ok () (Mat_fresh h w (brk s), ?s1)"
    unfolding realloc_sys_def using dims pos by (intro Mat_create_new) auto
  have "memcpy (Some (brk s)) 0 yuv (nat (w * h)) ?s1 =
          Inr (?s1\<lparr>heap := (heap ?s1)(brk s \<mapsto> take (nat (w * h)) yuv)\<rparr>)"
    using f by (intro memcpy_whole) (auto simp: realloc_sys_simps)
  then show ?thesis
    using dims f pos c
    by (simp add: yuv420ToGray_def then_do_def int_mul_ok to_size_t_id Mat_fresh_def)
qed


lemma load_whole:
  "heap s a = Some blk \<Longrightarrow> length blk = n \<Longrightarrow> load (Some a) 0 n s = Inr blk"
  by (auto simp: load_def)

section \<open>Gray conversion\<close>

text \<open>
  Claim C1. For a valid width and height (both positive, as the entry points guarantee)
  with \<open>width * height\<close> at most the length of the frame, \<^verbatim>\<open>yuv420ToGray\<close> and
  \<^verbatim>\<open>processGrayscale\<close> return a view of \<open>height\<close> rows and \<open>width\<close> columns whose
  storage holds exactly the first \<open>width * height\<close> bytes of the frame, and
  \<^verbatim>\<open>matToByteArray\<close> of that view is this byte sequence, of length \<open>width * height\<close>.
  The frame is a Java byte array, so its length is at most \<open>INT_MAX\<close>; the gray buffer
  is in a state the processor's own code leaves it in.
\<close>

theorem toGray_identity_copy:
  assumes ok: "buffer_ok s (grayBuffer this)"
    and pos: "0 < width" "0 < height"
    and fits: "width * height \<le> int (length yuvData)" "length yuvData \<le> nat INT_MAX"
  shows "\<exists>g this' s' a.
      yuv420ToGray yuvData width height this s = Ok g (this', s') \<and>
      processGrayscale yuvData width height this s = Ok g (this', s') \<and>
      rows g = height \<and> cols g = width \<and> data g = Some a \<and>
      heap s' a = Some (take (nat (width * height)) yuvData) \<and>
      matToByteArray g s' = Inr (take (nat (width * height)) yuvData) \<and>
      int (length (take (nat (width * height)) yuvData)) = width * height"
proof -
  note f = frame_fits [OF pos fits]
  have len: "int (length (take (nat (width * height)) yuvData)) = width * height"
    using f by simp
  show ?thesis
  proof (cases "cols (grayBuffer this) = width \<and> rows (grayBuffer this) = height")
    case True
    then have d: "cols (grayBuffer this) = width" "rows (grayBuffer this) = height" by auto
    from yuv420ToGray_reuse [OF ok d pos fits] obtain a where
      a: "data (grayBuffer this) = Some a"
         "yuv420ToGray yuvData width height this s =
            Ok (grayBuffer this)
               (this, s\<lparr>heap := (heap s)(a \<mapsto> take (nat (width * height)) yuvData)\<rparr>)"
      by blast
    from buffer_ok_shape [OF ok] d pos a
    have sh: "data_off (grayBuffer this) = 0" "isContinuous (grayBuffer this)"
      "elemSize (grayBuffer this) = 1"
      by auto
    have "matToByteArray (grayBuffer this)
            (s\<lparr>heap := (heap s)(a \<mapsto> take (nat (width * height)) yuvData)\<rparr>) =
          Inr (take (nat (width * height)) yuvData)"
      using sh a d f by (simp add: matToByteArray_def Mat_total_def load_whole)
    with a d len show ?thesis by (simp add: processGrayscale_def)
  next
    case False
    then have d: "cols (grayBuffer this) \<noteq> width \<or> rows (grayBuffer this) \<noteq> height" by auto
    note r = yuv420ToGray_realloc [OF d pos fits]
    let ?s1 = "realloc_sys height width (grayBuffer this) s"
    have "matToByteArray (Mat_fresh height width (brk s))
            (?s1\<lparr>heap := (heap ?s1)(brk s \<mapsto> take (nat (width * height)) yuvData)\<rparr>) =
          Inr (take (nat (width * height)) yuvData)"
      using f by (simp add: matToByteArray_def Mat_total_def Mat_fresh_def load_whole)
    with r len show ?thesis by (simp add: processGrayscale_def Mat_fresh_def)
  qed
qed

theorem toGray_identity_copy_witness:
  "buffer_ok sys0 (grayBuffer (fst (EdgeProcessor_new sys0))) \<and> (0::int) < 2 \<and> (0::int) < 2 \<and>
   (2::int) * 2 \<le> int (length [1, 2, 3, 4, 5, 6 :: byte]) \<and>
   length [1, 2, 3, 4, 5, 6 :: byte] \<le> nat INT_MAX \<and>
   (\<exists>g this' s' a.
      yuv420ToGray [1, 2, 3, 4, 5, 6] 2 2 (fst (EdgeProcessor_new sys0)) sys0 = Ok g (this', s') \<and>
      data g = Some a \<and> heap s' a = Some [1, 2, 3, 4] \<and>
      matToByteArray g s' = Inr [1, 2, 3, 4])"
proof -
  have h: "buffer_ok sys0 (grayBuffer (fst (EdgeProcessor_new sys0)))"
    "(0::int) < 2" "(2::int) * 2 \<le> int (length [1, 2, 3, 4, 5, 6 :: byte])"
    "length [1, 2, 3, 4, 5, 6 :: byte] \<le> nat INT_MAX"
    by (simp_all add: buffer_ok_def EdgeProcessor_new_def INT_MAX_def)
  from toGray_identity_copy [OF h(1) h(2) h(2) h(3) h(4)] h show ?thesis
    by auto
qed

section \<open>Serialising an image\<close>

lemma concat_rows:
  "concat (map (\<lambda>i. take n (drop (off + i * n) blk)) [0..<r]) = take (r * n) (drop off blk)"
proof (induction r)
  case 0
  show ?case by simp
next
  case (Suc r)
  have "take (r * n + n) (drop off blk) =
          take (r * n) (drop off blk) @ take n (drop (r * n) (drop off blk))"
    by (rule take_add)
  with Suc show ?case by (simp add: add.commute)
qed

lemma load_row:
  assumes "heap s a = Some blk" "off + n \<le> length blk"
  shows "load (Some a) off n s = Inr (take n (drop off blk))"
  using assms by (simp add: load_def)

lemma insert_rows_concat:
  assumes "data mat = Some a" "heap s a = Some blk"
    and "\<forall>i\<in>set is. data_off mat + i * step mat + nat (cols mat) * elemSize mat \<le> length blk"
  shows "insert_rows mat s is acc = Inr (acc @ concat (map (Mat_row blk mat) is))"
  using assms(3)
proof (induction "is" arbitrary: acc)
  case Nil
  show ?case by simp
next
  case (Cons i "is")
  have "load (data mat) (data_off mat + i * step mat) (nat (cols mat) * elemSize mat) s =
          Inr (Mat_row blk mat i)"
    unfolding Mat_row_def using assms(1,2) Cons.prems by (simp add: load_row)
  with Cons show ?case by simp
qed

lemma insert_rows_empty:
  assumes "nat (cols mat) * elemSize mat = 0"
  shows "insert_rows mat s is acc = Inr (acc @ concat (map (Mat_row blk mat) is))"
proof (induction "is" arbitrary: acc)
  case Nil
  show ?case by simp
next
  case (Cons i "is")
  with assms show ?case by (simp add: load_def Mat_row_def)
qed

lemma row_within:
  fixes i r st :: nat
  assumes "i < r" "off + (r - 1) * st + n \<le> len"
  shows "off + i * st + n \<le> len"
proof -
  from assms(1) have "i \<le> r - 1" by simp
  then have "i * st \<le> (r - 1) * st" by (rule mult_le_mono1)
  with assms(2) show ?thesis by linarith
qed

text \<open>
  Claim C8. For every 2-D image, \<^verbatim>\<open>matToByteArray\<close> returns the concatenation of the
  image's rows in row-major order, through the single range copy when the storage is
  continuous and through the row loop when it is not.
\<close>

theorem matToByteArray_row_major:
  assumes ok: "image_ok s mat"
  shows "matToByteArray mat s = Inr (row_major (Mat_block s mat) mat)"
proof (cases "Mat_total mat * elemSize mat = 0")
  case True
  then have z: "nat (rows mat) = 0 \<or> nat (cols mat) * elemSize mat = 0"
    by (auto simp: Mat_total_def)
  have c: "load (data mat) (data_off mat) (Mat_total mat * elemSize mat) s = Inr []"
    using True by (simp add: load_def)
  have r: "row_major (Mat_block s mat) mat = []"
    using z by (auto simp: row_major_def Mat_row_def)
  have l: "insert_rows mat s [0..<nat (rows mat)] [] = Inr (row_major (Mat_block s mat) mat)"
  proof (cases "nat (rows mat) = 0")
    case True
    then show ?thesis by (simp add: row_major_def)
  next
    case False
    with z have "nat (cols mat) * elemSize mat = 0" by simp
    from insert_rows_empty [OF this, of s "[0..<nat (rows mat)]" "[]" "Mat_block s mat"]
    show ?thesis by (simp add: row_major_def)
  qed
  show ?thesis using c r l by (simp add: matToByteArray_def)
next
  case False
  with ok obtain a blk where
    a: "data mat = Some a" "heap s a = Some blk"
    and fit: "data_off mat + (nat (rows mat) - 1) * step mat + nat (cols mat) * elemSize mat
                \<le> length blk"
    by (auto simp: image_ok_def split: option.splits)
  have b: "Mat_block s mat = blk" using a by (simp add: Mat_block_def)
  have rows: "\<forall>i\<in>set [0..<nat (rows mat)].
      data_off mat + i * step mat + nat (cols mat) * elemSize mat \<le> length blk"
    using fit by (auto intro: row_within)
  show ?thesis
  proof (cases "isContinuous mat")
    case cont: True
    from False have r1: "1 \<le> nat (rows mat)" by (auto simp: Mat_total_def)
    have tot: "Mat_total mat * elemSize mat = nat (rows mat) * (nat (cols mat) * elemSize mat)"
      by (simp add: Mat_total_def)
    from ok cont have "step mat = nat (cols mat) * elemSize mat \<or> rows mat \<le> 1"
      by (simp add: image_ok_def)
    then show ?thesis
    proof
      assume st: "step mat = nat (cols mat) * elemSize mat"
      have "nat (rows mat) - 1 + 1 = nat (rows mat)" using r1 by simp
      then have "(nat (rows mat) - 1) * step mat + step mat = nat (rows mat) * step mat"
        by (metis add_mult_distrib mult_1)
      with fit st have "data_off mat + nat (rows mat) * (nat (cols mat) * elemSize mat) \<le> length blk"
        by simp
      with a(2) have "load (Some a) (data_off mat) (Mat_total mat * elemSize mat) s =
          Inr (take (nat (rows mat) * (nat (cols mat) * elemSize mat)) (drop (data_off mat) blk))"
        unfolding tot by (rule load_row)
      moreover have "row_major blk mat =
          take (nat (rows mat) * (nat (cols mat) * elemSize mat)) (drop (data_off mat) blk)"
        unfolding row_major_def Mat_row_def st by (rule concat_rows)
      ultimately show ?thesis using cont a b by (simp add: matToByteArray_def)
    next
      assume "rows mat \<le> 1"
      with r1 have one: "nat (rows mat) = 1" by simp
      then have tot1: "Mat_total mat * elemSize mat = nat (cols mat) * elemSize mat"
        by (simp add: Mat_total_def)
      from one fit have "data_off mat + nat (cols mat) * elemSize mat \<le> length blk" by simp
      with a(2) have "load (Some a) (data_off mat) (Mat_total mat * elemSize mat) s =
          Inr (take (nat (cols mat) * elemSize mat) (drop (data_off mat) blk))"
        unfolding tot1 by (rule load_row)
      moreover have "row_major blk mat =
          take (nat (cols mat) * elemSize mat) (drop (data_off mat) blk)"
        using one by (simp add: row_major_def Mat_row_def)
      ultimately show ?thesis using cont a b by (simp add: matToByteArray_def)
    qed
  next
    case False
    from insert_rows_concat [OF a rows, of "[]"] False b show ?thesis
      by (simp add: matToByteArray_def row_major_def)
  qed
qed

theorem matToByteArray_row_major_witness:
  "image_ok strided_sys strided_Mat \<and>
   matToByteArray strided_Mat strided_sys = Inr [2, 3, 4, 6, 7, 8]"
proof -
  have h: "image_ok strided_sys strided_Mat"
    by (simp add: image_ok_def strided_sys_def strided_Mat_def)
  have "row_major (Mat_block strided_sys strided_Mat) strided_Mat = [2, 3, 4, 6, 7, 8]"
    by (simp add: row_major_def Mat_row_def Mat_block_def strided_sys_def strided_Mat_def upt_rec)
  with matToByteArray_row_major [OF h] h show ?thesis by simp
qed

section \<open>Buffers across calls\<close>

lemma buffer_ok_realloc_new:
  "0 < r \<Longrightarrow> 0 < c \<Longrightarrow> buffer_ok (realloc_sys r c m s) (Mat_fresh r c (brk s))"
  by (simp add: buffer_ok_def Mat_fresh_def realloc_sys_simps Mat_total_def)

lemma buffer_ok_realloc_other:
  assumes "buffer_ok s x" "apart x m"
  shows "buffer_ok (realloc_sys r c m s) x"
proof (cases "data x")
  case None
  with assms(1) show ?thesis by (simp add: buffer_ok_def)
next
  case (Some a)
  with assms(1) have lt: "a < brk s" by (auto simp: buffer_ok_def Mat_empty_def)
  from Some assms(2) have ne: "data m \<noteq> Some a" by (auto simp: apart_def)
  from lt ne have "heap (realloc_sys r c m s) a = heap s a"
    by (simp add: realloc_sys_simps)
  with assms(1) Some lt show ?thesis
    by (simp add: buffer_ok_def realloc_sys_simps)
qed

lemma buffer_ok_ensured:
  assumes "buffer_ok s m" "0 < r" "0 < c"
  shows "buffer_ok (ensured_sys r c m s) (ensured_Mat r c m s)"
    and "rows (ensured_Mat r c m s) = r" and "cols (ensured_Mat r c m s) = c"
proof -
  show "buffer_ok (ensured_sys r c m s) (ensured_Mat r c m s)"
    using assms by (simp add: ensured_sys_def ensured_Mat_def buffer_ok_realloc_new)
  show "rows (ensured_Mat r c m s) = r" "cols (ensured_Mat r c m s) = c"
    by (simp_all add: ensured_Mat_def Mat_fresh_def)
qed

lemma buffer_ok_ensured_other:
  assumes "buffer_ok s x" "apart x m"
  shows "buffer_ok (ensured_sys r c m s) x"
  using assms by (simp add: ensured_sys_def buffer_ok_realloc_other)

lemma buffer_ok_data:
  "buffer_ok s m \<Longrightarrow> data m = Some a \<Longrightarrow> a < brk s"
  by (auto simp: buffer_ok_def Mat_empty_def)

lemma apart_ensured:
  assumes "buffer_ok s x" "apart x m"
  shows "apart x (ensured_Mat r c m s)"
proof (cases "data x")
  case None
  then show ?thesis by (simp add: apart_def)
next
  case (Some a)
  with assms(1) have "a < brk s" by (rule buffer_ok_data)
  with Some assms(2) show ?thesis
    by (auto simp: apart_def ensured_Mat_def Mat_fresh_def)
qed

lemma apart_sym: "apart x m \<Longrightarrow> apart m x"
  by (auto simp: apart_def)

lemma buffer_ok_store_px:
  assumes "buffer_ok s x" "buffer_ok s m" "length px = Mat_total m"
  shows "buffer_ok (store_px m px s) x"
proof (cases "data m")
  case None
  then show ?thesis using assms(1) by (simp add: store_px_def)
next
  case (Some a)
  with assms(2) obtain blk where "heap s a = Some blk" "length blk = Mat_total m"
    by (auto simp: buffer_ok_def Mat_empty_def split: option.splits)
  with assms(1,3) Some show ?thesis
    by (auto simp: store_px_def buffer_ok_def split: option.splits)
qed

lemma brk_ensured: "brk s \<le> brk (ensured_sys r c m s)"
  by (simp add: ensured_sys_def realloc_sys_simps)

lemma brk_store_px [simp]: "brk (store_px m px s) = brk s"
  by (simp add: store_px_def split: option.splits)

lemma heap_store_px:
  "data m = Some a \<Longrightarrow> heap (store_px m px s) a = Some px"
  "data m \<noteq> Some a' \<Longrightarrow> heap (store_px m px s) a' = heap s a'"
  by (auto simp: store_px_def split: option.splits)

lemma load_rows_concat:
  assumes "data m = Some a" "heap s a = Some blk"
    and "\<forall>i\<in>set is. data_off m + i * step m + row_len m \<le> length blk"
  shows "load_rows m s is =
     Inr (concat (map (\<lambda>i. take (row_len m) (drop (data_off m + i * step m) blk)) is))"
  using assms(3)
proof (induction "is")
  case Nil
  show ?case by simp
next
  case (Cons i "is")
  have "load (data m) (data_off m + i * step m) (row_len m) s =
          Inr (take (row_len m) (drop (data_off m + i * step m) blk))"
    using assms(1,2) Cons.prems by (simp add: load_row)
  with Cons show ?case by simp
qed

lemma row_in_block:
  fixes i r c :: nat
  assumes "i < r"
  shows "i * c + c \<le> r * c"
proof -
  from assms have "Suc i \<le> r" by simp
  then have "Suc i * c \<le> r * c" by (rule mult_le_mono1)
  then show ?thesis by (simp add: add.commute)
qed

lemma buffer_ok_fields:
  assumes "buffer_ok s m" "data m = Some a"
  shows "elemSize m = 1" "step m = nat (cols m)" "data_off m = 0" "row_len m = nat (cols m)"
    "0 < rows m" "0 < cols m" "a < brk s"
    "\<exists>blk. heap s a = Some blk \<and> length blk = nat (rows m) * nat (cols m)"
  using assms
  by (auto simp: buffer_ok_def Mat_empty_def row_len_def Mat_total_def split: option.splits)

lemma Mat_read_ok:
  assumes ok: "buffer_ok s m" and a: "data m = Some a" "heap s a = Some blk"
  shows "Mat_read m s = Inr blk"
proof -
  note f = buffer_ok_fields [OF ok a(1)]
  from f(8) a(2) have len: "length blk = nat (rows m) * nat (cols m)" by simp
  have "\<forall>i\<in>set [0..<nat (rows m)]. data_off m + i * step m + row_len m \<le> length blk"
    using f(2,3,4) len by (auto intro: row_in_block)
  from load_rows_concat [OF a this]
  have "Mat_read m s =
      Inr (concat (map (\<lambda>i. take (nat (cols m)) (drop (0 + i * nat (cols m)) blk))
             [0..<nat (rows m)]))"
    using f(2,3,4) by (simp add: Mat_read_def)
  also have "\<dots> = Inr (take (nat (rows m) * nat (cols m)) (drop 0 blk))"
    by (simp only: concat_rows)
  finally show ?thesis using len by simp
qed

lemma store_rows_append:
  "store_rows m px (xs @ ys) s =
     (case store_rows m px xs s of Inl u \<Rightarrow> Inl u | Inr s1 \<Rightarrow> store_rows m px ys s1)"
  by (induction xs arbitrary: s) (auto split: sum.splits)

lemma splice_block:
  "length p = n \<Longrightarrow>
   take n (p @ drop n blk) @ row @ drop (n + c) (p @ drop n blk) = (p @ row) @ drop (n + c) blk"
  by (simp add: add.commute)

lemma store_rows_prefix:
  assumes m: "data m = Some a" "data_off m = 0" "step m = c" "row_len m = c"
    and blk: "heap s a = Some blk" "length blk = r * c" and px: "length px = r * c"
  shows "k \<le> r \<Longrightarrow>
     store_rows m px [0..<k] s =
       Inr (s\<lparr>heap := (heap s)(a \<mapsto> take (k * c) px @ drop (k * c) blk)\<rparr>)"
proof (induction k)
  case 0
  have "(heap s)(a \<mapsto> blk) = heap s" using blk(1) by (rule map_upd_triv)
  then show ?case by simp
next
  case (Suc k)
  let ?b = "take (k * c) px @ drop (k * c) blk"
  let ?s = "s\<lparr>heap := (heap s)(a \<mapsto> ?b)\<rparr>"
  let ?row = "take c (drop (k * c) px)"
  from Suc.prems have k: "k < r" by simp
  then have fit: "k * c + c \<le> r * c" by (rule row_in_block)
  have kc: "k * c \<le> r * c" using k by (intro mult_le_mono1) simp
  have lrow: "length ?row = c" using fit px by simp
  have ltk: "length (take (k * c) px) = k * c" using kc px by simp
  have lb: "length ?b = r * c" using kc px blk(2) by simp
  have st0: "store (Some a) (k * c) ?row ?s =
          Inr (?s\<lparr>heap := (heap ?s)(a \<mapsto> take (k * c) ?b @ ?row @ drop (k * c + c) ?b)\<rparr>)"
    using fit lb lrow by (simp add: store_def)
  have upd: "\<And>X. ?s\<lparr>heap := (heap ?s)(a \<mapsto> X)\<rparr> = s\<lparr>heap := (heap s)(a \<mapsto> X)\<rparr>"
    by simp
  have "take (k * c) ?b @ ?row @ drop (k * c + c) ?b =
          (take (k * c) px @ ?row) @ drop (k * c + c) blk"
    using ltk by (rule splice_block)
  also have "take (k * c) px @ ?row = take (k * c + c) px"
    by (rule take_add [symmetric])
  finally have new: "take (k * c) ?b @ ?row @ drop (k * c + c) ?b =
      take (k * c + c) px @ drop (k * c + c) blk" .
  have sk: "Suc k * c = k * c + c" by simp
  have st: "store (Some a) (k * c) ?row ?s =
      Inr (s\<lparr>heap := (heap s)(a \<mapsto> take (Suc k * c) px @ drop (Suc k * c) blk)\<rparr>)"
    unfolding sk by (simp only: st0 upd new)
  from k have "k \<le> r" by simp
  then have ih: "store_rows m px [0..<k] s = Inr ?s" by (rule Suc.IH)
  have "store_rows m px ([0..<k] @ [k]) s =
          store (Some a) (k * c) ?row ?s"
    using m by (simp add: store_rows_append ih split: sum.splits)
  with st show ?case by (simp only: upt_Suc_append [OF le0])
qed

lemma Mat_write_ok:
  assumes ok: "buffer_ok s m" and a: "data m = Some a"
    and px: "length px = nat (rows m) * nat (cols m)"
  shows "Mat_write m px s = Inr (store_px m px s)"
proof -
  note f = buffer_ok_fields [OF ok a]
  from f(8) obtain blk where blk: "heap s a = Some blk" "length blk = nat (rows m) * nat (cols m)"
    by blast
  from store_rows_prefix [OF a f(3) f(2) f(4) blk px, of "nat (rows m)"]
  show ?thesis using px blk a by (simp add: Mat_write_def store_px_def)
qed

lemma cv_filter_ok:
  assumes src: "buffer_ok s src" "data src = Some a" "heap s a = Some px"
    and dst: "buffer_ok s dst" "data dst = Some b"
    and dims: "rows dst = rows src" "cols dst = cols src"
  shows "cv_filter f src dst s =
     Ok () (dst, store_px dst (map (f (rows src) (cols src) px) [0..<nat (rows src) * nat (cols src)]) s)"
proof -
  have r: "Mat_read src s = Inr px" using src by (rule Mat_read_ok)
  have c: "Mat_create (rows src) (cols src) dst s = Ok () (dst, s)"
    using dims dst buffer_ok_fields(1) [OF dst] by (simp add: Mat_create_def)
  have w: "Mat_write dst (map (f (rows src) (cols src) px) [0..<Mat_total dst]) s =
      Inr (store_px dst (map (f (rows src) (cols src) px) [0..<Mat_total dst]) s)"
    using dst by (intro Mat_write_ok) (auto simp: Mat_total_def)
  show ?thesis using r c w dims by (simp add: cv_filter_def then_do_def Mat_total_def)
qed

lemma heap_ensured_other:
  assumes "buffer_ok s x" "data x = Some a" "apart x m"
  shows "heap (ensured_sys r c m s) a = heap s a"
proof -
  from assms(1,2) have "a < brk s" by (rule buffer_ok_data)
  moreover from assms(2,3) have "data m \<noteq> Some a" by (auto simp: apart_def)
  ultimately show ?thesis by (simp add: ensured_sys_def realloc_sys_simps)
qed

lemma buffer_ok_has_data:
  "buffer_ok s m \<Longrightarrow> 0 < rows m \<Longrightarrow> \<exists>a. data m = Some a"
  by (auto simp: buffer_ok_def Mat_empty_def split: option.splits)

lemma ensured_this_simps:
  "grayBuffer (ensured_this w h p s) = ensured_Mat h w (grayBuffer p) s"
  "blurredBuffer (ensured_this w h p s) = blurredBuffer p"
  "edgesBuffer (ensured_this w h p s) = edgesBuffer p"
  "cannyThreshold1 (ensured_this w h p s) = cannyThreshold1 p"
  "cannyThreshold2 (ensured_this w h p s) = cannyThreshold2 p"
  "cannyApertureSize (ensured_this w h p s) = cannyApertureSize p"
  by (simp_all add: ensured_this_def ensured_Mat_def)

lemma yuv420ToGray_step:
  assumes ok: "buffer_ok s (grayBuffer p)"
    and pos: "0 < w" "0 < h"
    and fits: "w * h \<le> int (length yuv)" "length yuv \<le> nat INT_MAX"
  shows "yuv420ToGray yuv w h p s =
     Ok (ensured_Mat h w (grayBuffer p) s)
        (ensured_this w h p s,
         store_px (ensured_Mat h w (grayBuffer p) s) (take (nat (w * h)) yuv)
           (ensured_sys h w (grayBuffer p) s))"
proof (cases "cols (grayBuffer p) = w \<and> rows (grayBuffer p) = h")
  case True
  then have d: "cols (grayBuffer p) = w" "rows (grayBuffer p) = h" by auto
  from yuv420ToGray_reuse [OF ok d pos fits] True show ?thesis
    by (auto simp: ensured_Mat_def ensured_sys_def ensured_this_def store_px_def)
next
  case False
  then have d: "cols (grayBuffer p) \<noteq> w \<or> rows (grayBuffer p) \<noteq> h" by auto
  have e: "ensured_Mat h w (grayBuffer p) s = Mat_fresh h w (brk s)"
    "ensured_sys h w (grayBuffer p) s = realloc_sys h w (grayBuffer p) s"
    "ensured_this w h p s = p\<lparr>grayBuffer := Mat_fresh h w (brk s), lastWidth := w, lastHeight := h\<rparr>"
    using False by (auto simp: ensured_Mat_def ensured_sys_def ensured_this_def)
  have "data (Mat_fresh h w (brk s)) = Some (brk s)" by (simp add: Mat_fresh_def)
  then show ?thesis
    unfolding e yuv420ToGray_realloc [OF d pos fits] by (simp add: store_px_def)
qed

lemma then_do_Ok: "then_do (Ok x s) f = f x s"
  by (simp add: then_do_def)

lemma on_member_Ok: "on_member upd p (Ok x (m, s)) = Ok () (upd m p, s)"
  by (simp add: on_member_def)

lemma ensure_member:
  assumes "0 < r" "0 < c" "upd m p = p"
  shows "(if cols m \<noteq> c \<or> rows m \<noteq> r then on_member upd p (Mat_create r c m s)
          else Ok () (p, s)) =
         Ok () (upd (ensured_Mat r c m s) p, ensured_sys r c m s)"
proof (cases "cols m = c \<and> rows m = r")
  case True
  with assms(3) show ?thesis by (simp add: ensured_Mat_def ensured_sys_def)
next
  case False
  then have d: "rows m \<noteq> r \<or> cols m \<noteq> c" by auto
  have e: "ensured_Mat r c m s = Mat_fresh r c (brk s)" "ensured_sys r c m s = realloc_sys r c m s"
    using False by (auto simp: ensured_Mat_def ensured_sys_def)
  from False show ?thesis
    unfolding e Mat_create_new [OF d assms(1,2)] realloc_sys_def [symmetric]
    by (auto simp: on_member_def)
qed

lemma processCanny_post:
  assumes ok: "processor_ok s p"
    and pos: "0 < w" "0 < h"
    and fits: "w * h \<le> int (length yuv)" "length yuv \<le> nat INT_MAX"
  shows "\<exists>p' s' s1 s2 ag ab ae.
      processCanny lib yuv w h p s = Ok (edgesBuffer p') (p', s') \<and>
      processor_ok s' p' \<and>
      cannyThreshold1 p' = cannyThreshold1 p \<and> cannyThreshold2 p' = cannyThreshold2 p \<and>
      cannyApertureSize p' = cannyApertureSize p \<and>
      grayBuffer p' = ensured_Mat h w (grayBuffer p) s \<and>
      blurredBuffer p' = ensured_Mat h w (blurredBuffer p) s1 \<and>
      edgesBuffer p' = ensured_Mat h w (edgesBuffer p) s2 \<and>
      brk s \<le> brk s1 \<and> brk s \<le> brk s2 \<and>
      data (grayBuffer p') = Some ag \<and> data (blurredBuffer p') = Some ab \<and>
      data (edgesBuffer p') = Some ae \<and>
      heap s' ag = Some (take (nat (w * h)) yuv) \<and>
      heap s' ab = Some (blur_out lib w h yuv) \<and>
      heap s' ae = Some (edges_out lib (cannyThreshold1 p) (cannyThreshold2 p)
                           (cannyApertureSize p) w h yuv)"
proof -
  define F where "F = take (nat (w * h)) yuv"
  define B where "B = blur_out lib w h yuv"
  define E where "E = edges_out lib (cannyThreshold1 p) (cannyThreshold2 p)
                        (cannyApertureSize p) w h yuv"
  define g where "g = ensured_Mat h w (grayBuffer p) s"
  define s0 where "s0 = ensured_sys h w (grayBuffer p) s"
  define p1 where "p1 = ensured_this w h p s"
  define s1 where "s1 = store_px g F s0"
  define b where "b = ensured_Mat h w (blurredBuffer p) s1"
  define s2 where "s2 = ensured_sys h w (blurredBuffer p) s1"
  define e where "e = ensured_Mat h w (edgesBuffer p) s2"
  define s3 where "s3 = ensured_sys h w (edgesBuffer p) s2"
  define s4 where "s4 = store_px b B s3"
  define s5 where "s5 = store_px e E s4"
  define p' where "p' = p1\<lparr>blurredBuffer := b, edgesBuffer := e\<rparr>"
  note f = frame_fits [OF pos fits]
  have n: "nat h * nat w = nat (w * h)" by (rule f(3))
  have lenF: "length F = nat h * nat w" using f by (simp add: F_def)
  have lenB: "length B = nat h * nat w" by (simp add: B_def blur_out_def)
  have lenE: "length E = nat h * nat w" by (simp add: E_def edges_out_def)
  from ok have okg: "buffer_ok s (grayBuffer p)" and okb: "buffer_ok s (blurredBuffer p)"
    and oke: "buffer_ok s (edgesBuffer p)"
    and gb: "apart (grayBuffer p) (blurredBuffer p)" and ge: "apart (grayBuffer p) (edgesBuffer p)"
    and be: "apart (blurredBuffer p) (edgesBuffer p)"
    by (auto simp: processor_ok_def)
  text \<open>gray conversion\<close>
  have gray: "yuv420ToGray yuv w h p s = Ok g (p1, s1)"
    unfolding g_def p1_def s1_def s0_def F_def by (rule yuv420ToGray_step [OF okg pos fits])
  have g0: "buffer_ok s0 g" "rows g = h" "cols g = w"
    unfolding g_def s0_def using okg pos by (simp_all add: buffer_ok_ensured)
  have b0: "buffer_ok s0 (blurredBuffer p)"
    unfolding s0_def using okb gb by (intro buffer_ok_ensured_other) (auto intro: apart_sym)
  have e0: "buffer_ok s0 (edgesBuffer p)"
    unfolding s0_def using oke ge by (intro buffer_ok_ensured_other) (auto intro: apart_sym)
  have bg: "apart (blurredBuffer p) g"
    unfolding g_def using okb gb by (intro apart_ensured) (auto intro: apart_sym)
  have eg: "apart (edgesBuffer p) g"
    unfolding g_def using oke ge by (intro apart_ensured) (auto intro: apart_sym)
  have totg: "Mat_total g = nat h * nat w" using g0 by (simp add: Mat_total_def)
  have g1: "buffer_ok s1 g" and b1: "buffer_ok s1 (blurredBuffer p)"
    and e1: "buffer_ok s1 (edgesBuffer p)"
    unfolding s1_def using g0 b0 e0 lenF totg by (simp_all add: buffer_ok_store_px)
  from buffer_ok_has_data [OF g0(1)] g0(2) pos obtain ag where ag: "data g = Some ag" by auto
  have hg1: "heap s1 ag = Some F" unfolding s1_def using ag by (simp add: heap_store_px)
  text \<open>the blur buffer\<close>
  have b2: "buffer_ok s2 b" "rows b = h" "cols b = w"
    unfolding b_def s2_def using b1 pos by (simp_all add: buffer_ok_ensured)
  have g2: "buffer_ok s2 g"
    unfolding s2_def using g1 bg by (intro buffer_ok_ensured_other) (auto intro: apart_sym)
  have e2: "buffer_ok s2 (edgesBuffer p)"
    unfolding s2_def using e1 be by (intro buffer_ok_ensured_other) (auto intro: apart_sym)
  have gb2: "apart g b"
    unfolding b_def using g1 bg by (intro apart_ensured) (auto intro: apart_sym)
  have eb2: "apart (edgesBuffer p) b"
    unfolding b_def using e1 be by (intro apart_ensured) (auto intro: apart_sym)
  have hg2: "heap s2 ag = Some F"
    unfolding s2_def using heap_ensured_other [OF g1 ag apart_sym [OF bg]] hg1 by simp
  from buffer_ok_has_data [OF b2(1)] b2(2) pos obtain ab where ab: "data b = Some ab" by auto
  text \<open>the edge buffer\<close>
  have e3: "buffer_ok s3 e" "rows e = h" "cols e = w"
    unfolding e_def s3_def using e2 pos by (simp_all add: buffer_ok_ensured)
  have g3: "buffer_ok s3 g"
    unfolding s3_def using g2 eg by (intro buffer_ok_ensured_other) (auto intro: apart_sym)
  have b3: "buffer_ok s3 b"
    unfolding s3_def using b2 eb2 by (intro buffer_ok_ensured_other) (auto intro: apart_sym)
  have ge3: "apart g e"
    unfolding e_def using g2 eg by (intro apart_ensured) (auto intro: apart_sym)
  have be3: "apart b e"
    unfolding e_def using b2 eb2 by (intro apart_ensured) (auto intro: apart_sym)
  have hg3: "heap s3 ag = Some F"
    unfolding s3_def using heap_ensured_other [OF g2 ag apart_sym [OF eg]] hg2 by simp
  from buffer_ok_has_data [OF e3(1)] e3(2) pos obtain ae where ae: "data e = Some ae" by auto
  have ne: "ab \<noteq> ag" "ae \<noteq> ag" "ae \<noteq> ab"
    using gb2 ge3 be3 ag ab ae by (auto simp: apart_def)
  text \<open>blur\<close>
  have blur: "cv_GaussianBlur lib g b (5, 5) (3 / 2) s3 = Ok () (b, s4)"
    unfolding cv_GaussianBlur_def s4_def B_def blur_out_def F_def [symmetric]
    using cv_filter_ok [OF g3 ag hg3 b3 ab] g0 b2 by simp
  have totb: "Mat_total b = nat h * nat w" using b2 by (simp add: Mat_total_def)
  have g4: "buffer_ok s4 g" and b4: "buffer_ok s4 b" and e4: "buffer_ok s4 e"
    unfolding s4_def using g3 b3 e3 lenB totb by (simp_all add: buffer_ok_store_px)
  have hb4: "heap s4 ab = Some B" unfolding s4_def using ab by (simp add: heap_store_px)
  have hg4: "heap s4 ag = Some F"
    unfolding s4_def using ab ne hg3 by (simp add: heap_store_px)
  text \<open>Canny\<close>
  have canny: "cv_Canny lib b e (cannyThreshold1 p) (cannyThreshold2 p) (cannyApertureSize p) s4 =
      Ok () (e, s5)"
    unfolding cv_Canny_def s5_def E_def edges_out_def B_def [symmetric]
    using cv_filter_ok [OF b4 ab hb4 e4 ae] b2 e3 by simp
  have tote: "Mat_total e = nat h * nat w" using e3 by (simp add: Mat_total_def)
  have g5: "buffer_ok s5 g" and b5: "buffer_ok s5 b" and e5: "buffer_ok s5 e"
    unfolding s5_def using g4 b4 e4 lenE tote by (simp_all add: buffer_ok_store_px)
  have he5: "heap s5 ae = Some E" unfolding s5_def using ae by (simp add: heap_store_px)
  have hb5: "heap s5 ab = Some B" unfolding s5_def using ae ne hb4 by (simp add: heap_store_px)
  have hg5: "heap s5 ag = Some F" unfolding s5_def using ae ne hg4 by (simp add: heap_store_px)
  text \<open>the call as a whole\<close>
  have p1_simps: "grayBuffer p1 = g" "blurredBuffer p1 = blurredBuffer p"
    "edgesBuffer p1 = edgesBuffer p" "cannyThreshold1 p1 = cannyThreshold1 p"
    "cannyThreshold2 p1 = cannyThreshold2 p" "cannyApertureSize p1 = cannyApertureSize p"
    unfolding p1_def g_def by (simp_all add: ensured_this_simps)
  have en_b: "(if cols (blurredBuffer p1) \<noteq> w \<or> rows (blurredBuffer p1) \<noteq> h
        then on_member (\<lambda>m p. p\<lparr>blurredBuffer := m\<rparr>) p1 (Mat_create h w (blurredBuffer p1) s1)
        else Ok () (p1, s1)) = Ok () (p1\<lparr>blurredBuffer := b\<rparr>, s2)"
    unfolding b_def s2_def p1_simps(2) [symmetric] by (rule ensure_member [OF pos(2,1)]) simp
  have en_e: "(if cols (edgesBuffer (p1\<lparr>blurredBuffer := b\<rparr>)) \<noteq> w \<or>
           rows (edgesBuffer (p1\<lparr>blurredBuffer := b\<rparr>)) \<noteq> h
        then on_member (\<lambda>m p. p\<lparr>edgesBuffer := m\<rparr>) (p1\<lparr>blurredBuffer := b\<rparr>)
               (Mat_create h w (edgesBuffer (p1\<lparr>blurredBuffer := b\<rparr>)) s2)
        else Ok () (p1\<lparr>blurredBuffer := b\<rparr>, s2)) = Ok () (p', s3)"
  proof -
    have eq: "edgesBuffer (p1\<lparr>blurredBuffer := b\<rparr>) = edgesBuffer p" by (simp add: p1_simps)
    have "p' = (\<lambda>m p. p\<lparr>edgesBuffer := m\<rparr>)
                 (ensured_Mat h w (edgesBuffer (p1\<lparr>blurredBuffer := b\<rparr>)) s2)
                 (p1\<lparr>blurredBuffer := b\<rparr>)"
      unfolding eq by (simp add: p'_def e_def)
    moreover have "s3 = ensured_sys h w (edgesBuffer (p1\<lparr>blurredBuffer := b\<rparr>)) s2"
      unfolding eq by (simp add: s3_def)
    ultimately show ?thesis
      using ensure_member [OF pos(2,1), of "\<lambda>m p. p\<lparr>edgesBuffer := m\<rparr>"
          "edgesBuffer (p1\<lparr>blurredBuffer := b\<rparr>)" "p1\<lparr>blurredBuffer := b\<rparr>" s2]
      by simp
  qed
  have p'_simps: "grayBuffer p' = g" "blurredBuffer p' = b" "edgesBuffer p' = e"
    "cannyThreshold1 p' = cannyThreshold1 p" "cannyThreshold2 p' = cannyThreshold2 p"
    "cannyApertureSize p' = cannyApertureSize p"
    unfolding p'_def by (simp_all add: p1_simps)
  have idb: "p'\<lparr>blurredBuffer := b\<rparr> = p'" and ide: "p'\<lparr>edgesBuffer := e\<rparr> = p'"
    unfolding p'_def by simp_all
  have run: "processCanny lib yuv w h p s = Ok (edgesBuffer p') (p', s5)"
    unfolding processCanny_def gray
    by (simp only: then_do_Ok prod.case en_b en_e p'_simps blur canny on_member_Ok idb ide)
  have pok: "processor_ok s5 p'"
    unfolding processor_ok_def p'_simps using g5 b5 e5 gb2 ge3 be3 by simp
  have "brk s \<le> brk s1" unfolding s1_def s0_def by (simp add: brk_ensured)
  moreover have "brk s1 \<le> brk s2" unfolding s2_def by (rule brk_ensured)
  ultimately have brks: "brk s \<le> brk s1" "brk s \<le> brk s2" by simp_all
  show ?thesis
    using run pok p'_simps brks ag ab ae hg5 hb5 he5
    unfolding g_def [symmetric] b_def [symmetric] e_def [symmetric] F_def B_def E_def
    by (intro exI [of _ p'] exI [of _ s5] exI [of _ s1] exI [of _ s2] exI [of _ ag]
          exI [of _ ab] exI [of _ ae]) (simp add: g_def b_def e_def)
qed

section \<open>Buffer reuse, repeated calls and the fresh processor\<close>

lemma buffer_step_ensured:
  assumes ok: "buffer_ok s m" and ok': "buffer_ok s' (ensured_Mat h w m s1)"
    and brk: "brk s \<le> brk s1" and pos: "0 < w" "0 < h"
  shows "buffer_step w h s m s' (ensured_Mat h w m s1)"
proof -
  let ?m = "ensured_Mat h w m s1"
  have dims: "rows ?m = h" "cols ?m = w" by (simp_all add: ensured_Mat_def Mat_fresh_def)
  from buffer_ok_has_data [OF ok'] dims pos obtain a where a: "data ?m = Some a" by auto
  from buffer_ok_fields(8) [OF ok' a] dims obtain blk where
    blk: "heap s' a = Some blk" "length blk = nat h * nat w" by auto
  from pos have "int (nat h * nat w) = w * h" by (simp add: nat_mult_distrib)
  with blk have len: "int (length blk) = w * h" by simp
  have first: "if cols m = w \<and> rows m = h then ?m = m
     else (case data ?m of None \<Rightarrow> False | Some a \<Rightarrow> brk s \<le> a \<and> data ?m \<noteq> data m)"
  proof (cases "cols m = w \<and> rows m = h")
    case True
    then show ?thesis by (simp add: ensured_Mat_def)
  next
    case False
    then have e: "?m = Mat_fresh h w (brk s1)" by (auto simp: ensured_Mat_def)
    have "data m \<noteq> Some (brk s1)"
    proof
      assume "data m = Some (brk s1)"
      with ok have "brk s1 < brk s" by (rule buffer_ok_data)
      with brk show False by simp
    qed
    with False brk show ?thesis unfolding e by (auto simp: Mat_fresh_def)
  qed
  show ?thesis unfolding buffer_step_def using first dims a blk(1) len by simp
qed

lemma processor_ok_new: "processor_ok (snd (EdgeProcessor_new s)) (fst (EdgeProcessor_new s))"
  by (simp add: EdgeProcessor_new_def processor_ok_def buffer_ok_def apart_def Mat_empty_def)

lemma yuv420ToGray_post:
  assumes ok: "processor_ok s p"
    and pos: "0 < w" "0 < h"
    and fits: "w * h \<le> int (length yuv)" "length yuv \<le> nat INT_MAX"
  shows "\<exists>p' s' ag.
      yuv420ToGray yuv w h p s = Ok (grayBuffer p') (p', s') \<and>
      processor_ok s' p' \<and>
      cannyThreshold1 p' = cannyThreshold1 p \<and> cannyThreshold2 p' = cannyThreshold2 p \<and>
      cannyApertureSize p' = cannyApertureSize p \<and>
      grayBuffer p' = ensured_Mat h w (grayBuffer p) s \<and>
      blurredBuffer p' = blurredBuffer p \<and> edgesBuffer p' = edgesBuffer p \<and>
      data (grayBuffer p') = Some ag \<and> heap s' ag = Some (take (nat (w * h)) yuv)"
proof -
  define F where "F = take (nat (w * h)) yuv"
  define g where "g = ensured_Mat h w (grayBuffer p) s"
  define s0 where "s0 = ensured_sys h w (grayBuffer p) s"
  define p1 where "p1 = ensured_this w h p s"
  define s1 where "s1 = store_px g F s0"
  note f = frame_fits [OF pos fits]
  have lenF: "length F = nat h * nat w" using f by (simp add: F_def)
  from ok have okg: "buffer_ok s (grayBuffer p)" and okb: "buffer_ok s (blurredBuffer p)"
    and oke: "buffer_ok s (edgesBuffer p)"
    and gb: "apart (grayBuffer p) (blurredBuffer p)" and ge: "apart (grayBuffer p) (edgesBuffer p)"
    and be: "apart (blurredBuffer p) (edgesBuffer p)"
    by (auto simp: processor_ok_def)
  have gray: "yuv420ToGray yuv w h p s = Ok g (p1, s1)"
    unfolding g_def p1_def s1_def s0_def F_def by (rule yuv420ToGray_step [OF okg pos fits])
  have g0: "buffer_ok s0 g" "rows g = h" "cols g = w"
    unfolding g_def s0_def using okg pos by (simp_all add: buffer_ok_ensured)
  have b0: "buffer_ok s0 (blurredBuffer p)"
    unfolding s0_def using okb gb by (intro buffer_ok_ensured_other) (auto intro: apart_sym)
  have e0: "buffer_ok s0 (edgesBuffer p)"
    unfolding s0_def using oke ge by (intro buffer_ok_ensured_other) (auto intro: apart_sym)
  have bg: "apart (blurredBuffer p) g"
    unfolding g_def using okb gb by (intro apart_ensured) (auto intro: apart_sym)
  have eg: "apart (edgesBuffer p) g"
    unfolding g_def using oke ge by (intro apart_ensured) (auto intro: apart_sym)
  have totg: "Mat_total g = nat h * nat w" using g0 by (simp add: Mat_total_def)
  have g1: "buffer_ok s1 g" and b1: "buffer_ok s1 (blurredBuffer p)"
    and e1: "buffer_ok s1 (edgesBuffer p)"
    unfolding s1_def using g0 b0 e0 lenF totg by (simp_all add: buffer_ok_store_px)
  from buffer_ok_has_data [OF g0(1)] g0(2) pos obtain ag where ag: "data g = Some ag" by auto
  have hg1: "heap s1 ag = Some F" unfolding s1_def using ag by (simp add: heap_store_px)
  have p1_simps: "grayBuffer p1 = g" "blurredBuffer p1 = blurredBuffer p"
    "edgesBuffer p1 = edgesBuffer p" "cannyThreshold1 p1 = cannyThreshold1 p"
    "cannyThreshold2 p1 = cannyThreshold2 p" "cannyApertureSize p1 = cannyApertureSize p"
    unfolding p1_def g_def by (simp_all add: ensured_this_simps)
  have pok: "processor_ok s1 p1"
    unfolding processor_ok_def p1_simps using g1 b1 e1 bg eg be by (auto intro: apart_sym)
  show ?thesis
    using gray pok p1_simps ag hg1 unfolding F_def
    by (intro exI [of _ p1] exI [of _ s1] exI [of _ ag]) (simp add: g_def)
qed

lemma matToByteArray_buffer:
  assumes "buffer_ok s m" "data m = Some a" "heap s a = Some blk"
  shows "matToByteArray m s = Inr blk"
proof -
  note f = buffer_ok_fields [OF assms(1,2)]
  from f(8) assms(3) have "length blk = Mat_total m * elemSize m"
    using f(1) by (simp add: Mat_total_def)
  with assms(3) have "load (Some a) 0 (Mat_total m * elemSize m) s = Inr blk"
    by (intro load_whole) simp_all
  moreover from assms have "isContinuous m"
    by (auto simp: buffer_ok_def Mat_empty_def)
  ultimately show ?thesis using assms(2) f(3) by (simp add: matToByteArray_def)
qed

lemma processor_okD:
  "processor_ok s p \<Longrightarrow> buffer_ok s (grayBuffer p)"
  "processor_ok s p \<Longrightarrow> buffer_ok s (blurredBuffer p)"
  "processor_ok s p \<Longrightarrow> buffer_ok s (edgesBuffer p)"
  by (simp_all add: processor_ok_def)

lemma exec_gray:
  assumes ok: "processor_ok s p" and v: "valid_frame yuv w h"
  shows "\<exists>p' s'.
      exec lib (ToGray yuv w h) (p, s) = Ok (take (nat (w * h)) yuv) (p', s') \<and>
      processor_ok s' p' \<and>
      cannyThreshold1 p' = cannyThreshold1 p \<and> cannyThreshold2 p' = cannyThreshold2 p \<and>
      cannyApertureSize p' = cannyApertureSize p \<and>
      call_step (ToGray yuv w h) (p, s) (p', s')"
proof -
  from v have pos: "0 < w" "0 < h"
    and fits: "w * h \<le> int (length yuv)" "length yuv \<le> nat INT_MAX"
    by (simp_all add: valid_frame_def)
  from yuv420ToGray_post [OF ok pos fits] obtain p' s' ag where
    r: "yuv420ToGray yuv w h p s = Ok (grayBuffer p') (p', s')"
    and ok': "processor_ok s' p'"
    and cfg: "cannyThreshold1 p' = cannyThreshold1 p" "cannyThreshold2 p' = cannyThreshold2 p"
      "cannyApertureSize p' = cannyApertureSize p"
    and g: "grayBuffer p' = ensured_Mat h w (grayBuffer p) s"
    and be: "blurredBuffer p' = blurredBuffer p" "edgesBuffer p' = edgesBuffer p"
    and ag: "data (grayBuffer p') = Some ag" "heap s' ag = Some (take (nat (w * h)) yuv)"
    by blast
  have m: "matToByteArray (grayBuffer p') s' = Inr (take (nat (w * h)) yuv)"
    using processor_okD(1) [OF ok'] ag by (rule matToByteArray_buffer)
  have st: "buffer_step w h s (grayBuffer p) s' (grayBuffer p')"
    unfolding g using processor_okD(1) [OF ok] processor_okD(1) [OF ok', unfolded g] pos
    by (intro buffer_step_ensured) simp_all
  have blk: "Mat_block s' (grayBuffer p') = take (nat (w * h)) yuv"
    using ag by (simp add: Mat_block_def)
  have "exec lib (ToGray yuv w h) (p, s) = Ok (take (nat (w * h)) yuv) (p', s')"
    using r m by (simp add: processGrayscale_def then_do_def)
  with ok' cfg st blk be show ?thesis by auto
qed

lemma exec_edges:
  assumes ok: "processor_ok s p" and v: "valid_frame yuv w h"
  shows "\<exists>p' s'.
      exec lib (ToEdges yuv w h) (p, s) =
        Ok (edges_out lib (cannyThreshold1 p) (cannyThreshold2 p) (cannyApertureSize p) w h yuv)
           (p', s') \<and>
      processor_ok s' p' \<and>
      cannyThreshold1 p' = cannyThreshold1 p \<and> cannyThreshold2 p' = cannyThreshold2 p \<and>
      cannyApertureSize p' = cannyApertureSize p \<and>
      call_step (ToEdges yuv w h) (p, s) (p', s')"
proof -
  let ?E = "edges_out lib (cannyThreshold1 p) (cannyThreshold2 p) (cannyApertureSize p) w h yuv"
  from v have pos: "0 < w" "0 < h"
    and fits: "w * h \<le> int (length yuv)" "length yuv \<le> nat INT_MAX"
    by (simp_all add: valid_frame_def)
  from processCanny_post [OF ok pos fits, of lib] obtain p' s' s1 s2 ag ab ae where
    r: "processCanny lib yuv w h p s = Ok (edgesBuffer p') (p', s')"
    and ok': "processor_ok s' p'"
    and cfg: "cannyThreshold1 p' = cannyThreshold1 p" "cannyThreshold2 p' = cannyThreshold2 p"
      "cannyApertureSize p' = cannyApertureSize p"
    and g: "grayBuffer p' = ensured_Mat h w (grayBuffer p) s"
    and b: "blurredBuffer p' = ensured_Mat h w (blurredBuffer p) s1"
    and e: "edgesBuffer p' = ensured_Mat h w (edgesBuffer p) s2"
    and brks: "brk s \<le> brk s1" "brk s \<le> brk s2"
    and ag: "data (grayBuffer p') = Some ag" "heap s' ag = Some (take (nat (w * h)) yuv)"
    and ae: "data (edgesBuffer p') = Some ae" "heap s' ae = Some ?E"
    by blast
  have m: "matToByteArray (edgesBuffer p') s' = Inr ?E"
    using processor_okD(3) [OF ok'] ae by (rule matToByteArray_buffer)
  have stg: "buffer_step w h s (grayBuffer p) s' (grayBuffer p')"
    unfolding g using processor_okD(1) [OF ok] processor_okD(1) [OF ok', unfolded g] pos
    by (intro buffer_step_ensured) simp_all
  have stb: "buffer_step w h s (blurredBuffer p) s' (blurredBuffer p')"
    unfolding b using processor_okD(2) [OF ok] processor_okD(2) [OF ok', unfolded b] pos brks
    by (intro buffer_step_ensured) simp_all
  have ste: "buffer_step w h s (edgesBuffer p) s' (edgesBuffer p')"
    unfolding e using processor_okD(3) [OF ok] processor_okD(3) [OF ok', unfolded e] pos brks
    by (intro buffer_step_ensured) simp_all
  have blk: "Mat_block s' (grayBuffer p') = take (nat (w * h)) yuv"
    using ag by (simp add: Mat_block_def)
  have "exec lib (ToEdges yuv w h) (p, s) = Ok ?E (p', s')"
    using r m by (simp add: then_do_def)
  with ok' cfg stg stb ste blk show ?thesis by auto
qed

lemma exec_valid:
  assumes "processor_ok s p" "valid_call c"
  shows "\<exists>out p' s'. exec lib c (p, s) = Ok out (p', s') \<and> processor_ok s' p' \<and>
     call_step c (p, s) (p', s')"
proof (cases c)
  case (ToGray yuv w h)
  with assms exec_gray [of s p yuv w h lib] show ?thesis by auto
next
  case (ToEdges yuv w h)
  with assms exec_edges [of s p yuv w h lib] show ?thesis by auto
next
  case (SetThresholds t1 t2)
  with assms(1) show ?thesis by (simp add: setCannyThresholds_def processor_ok_def)
qed

lemma run_valid:
  "list_all valid_call cs \<Longrightarrow> processor_ok s p \<Longrightarrow>
   \<exists>outs p' s'. run lib cs (p, s) = Ok outs (p', s') \<and> processor_ok s' p'"
proof (induction cs arbitrary: p s)
  case Nil
  then show ?case by simp
next
  case (Cons c cs)
  from Cons.prems have vc: "valid_call c" and vcs: "list_all valid_call cs" by simp_all
  from exec_valid [OF Cons.prems(2) vc, of lib] obtain out p1 s1 where
    e: "exec lib c (p, s) = Ok out (p1, s1)" and ok1: "processor_ok s1 p1" by blast
  from Cons.IH [OF vcs ok1] obtain outs p' s' where
    "run lib cs (p1, s1) = Ok outs (p', s')" "processor_ok s' p'" by blast
  with e show ?case by (simp add: then_do_def)
qed

lemma EdgeProcessor_new_fields:
  "cannyThreshold1 (fst (EdgeProcessor_new s)) = 50"
  "cannyThreshold2 (fst (EdgeProcessor_new s)) = 150"
  "cannyApertureSize (fst (EdgeProcessor_new s)) = 3"
  "lastWidth (fst (EdgeProcessor_new s)) = 0"
  "lastHeight (fst (EdgeProcessor_new s)) = 0"
  "grayBuffer (fst (EdgeProcessor_new s)) = Mat_empty"
  "blurredBuffer (fst (EdgeProcessor_new s)) = Mat_empty"
  "edgesBuffer (fst (EdgeProcessor_new s)) = Mat_empty"
  by (simp_all add: EdgeProcessor_new_def)

lemma valid_frame0: "valid_frame frame0 2 2"
  by (simp add: valid_frame_def frame0_def INT_MAX_def)

lemma buffer_step_shape: "buffer_step w h s m s' m' \<Longrightarrow> rows m' = h \<and> cols m' = w"
  by (simp add: buffer_step_def)

text \<open>
  Claim C2, as amended. After every sequence of valid calls on a fresh processor, the next
  call leaves each buffer it uses (the gray buffer for a gray conversion, all three for
  edge detection) on its storage exactly when the buffer already has the requested
  shape, and otherwise gives it a newly allocated block; in both cases the block has
  exactly \<open>width * height\<close> bytes and the gray buffer holds the frame's bytes. A gray
  conversion leaves the blur and edge buffers as they are.
\<close>

theorem buffers_reallocated_iff_shape_differs:
  assumes "list_all valid_call cs" and "valid_call c"
  shows "\<exists>outs p s out p' s'.
      run lib cs (EdgeProcessor_new s0) = Ok outs (p, s) \<and>
      exec lib c (p, s) = Ok out (p', s') \<and>
      call_step c (p, s) (p', s')"
proof -
  from run_valid [OF assms(1) processor_ok_new, of lib s0] obtain outs p s where
    r: "run lib cs (EdgeProcessor_new s0) = Ok outs (p, s)" and ok: "processor_ok s p"
    by auto
  from exec_valid [OF ok assms(2), of lib] r show ?thesis by blast
qed

theorem buffers_reallocated_iff_shape_differs_witness:
  "list_all valid_call [ToEdges frame0 2 2, SetThresholds 10 20, ToGray frame0 1 3] \<and>
   valid_call (ToEdges frame0 2 2) \<and>
   (\<exists>outs p s out p' s'.
      run lib0 [ToEdges frame0 2 2, SetThresholds 10 20, ToGray frame0 1 3]
        (EdgeProcessor_new sys0) = Ok outs (p, s) \<and>
      exec lib0 (ToEdges frame0 2 2) (p, s) = Ok out (p', s') \<and>
      call_step (ToEdges frame0 2 2) (p, s) (p', s'))"
proof -
  have h: "list_all valid_call [ToEdges frame0 2 2, SetThresholds 10 20, ToGray frame0 1 3]"
    "valid_call (ToEdges frame0 2 2)"
    by (simp_all add: valid_frame_def frame0_def INT_MAX_def)
  from buffers_reallocated_iff_shape_differs [OF h, where lib = lib0 and ?s0.0 = sys0] h
  show ?thesis by blast
qed

text \<open>
  The claim as worded speaks of each of the three buffers on every call. A gray conversion
  does not use the blur buffer: after edge detection on a 2 by 2 frame, a gray conversion
  of 1 column and 3 rows leaves the blur buffer at 2 by 2, on its old storage, although
  its shape differs from the requested one.
\<close>

theorem toGray_keeps_blur_buffer_counterexample:
  "valid_call (ToEdges frame0 2 2) \<and> valid_call (ToGray frame0 1 3) \<and>
   returned (run lib0 [ToEdges frame0 2 2] (EdgeProcessor_new sys0)) \<and>
   returned (exec lib0 (ToGray frame0 1 3) after_edges) \<and>
   blurredBuffer (fst after_gray) = blurredBuffer (fst after_edges) \<and>
   rows (blurredBuffer (fst after_edges)) = 2 \<and> cols (blurredBuffer (fst after_edges)) = 2 \<and>
   \<not> every_buffer_step (ToGray frame0 1 3) after_edges after_gray"
proof -
  have v1: "valid_frame frame0 2 2" and v2: "valid_frame frame0 1 3"
    by (simp_all add: valid_frame_def frame0_def INT_MAX_def)
  obtain p0 s0 where pair: "EdgeProcessor_new sys0 = (p0, s0)"
    by (cases "EdgeProcessor_new sys0")
  have ok0: "processor_ok s0 p0" using processor_ok_new [of sys0] by (simp add: pair)
  from exec_edges [OF ok0 v1, of lib0] obtain p1 s1 out1 where
    e1: "exec lib0 (ToEdges frame0 2 2) (p0, s0) = Ok out1 (p1, s1)"
    and ok1: "processor_ok s1 p1"
    and st1: "call_step (ToEdges frame0 2 2) (p0, s0) (p1, s1)"
    by blast
  have r1: "run lib0 [ToEdges frame0 2 2] (EdgeProcessor_new sys0) = Ok [out1] (p1, s1)"
    unfolding pair using e1 by (simp add: then_do_def)
  have ae: "after_edges = (p1, s1)" unfolding after_edges_def r1 by (simp add: final_def)
  from st1 have sh: "rows (blurredBuffer p1) = 2" "cols (blurredBuffer p1) = 2"
    by (auto dest: buffer_step_shape)
  from exec_gray [OF ok1 v2, of lib0] obtain p2 s2 where
    e2: "exec lib0 (ToGray frame0 1 3) (p1, s1) = Ok (take (nat (1 * 3)) frame0) (p2, s2)"
    and st2: "call_step (ToGray frame0 1 3) (p1, s1) (p2, s2)"
    by blast
  have ag: "after_gray = (p2, s2)" unfolding after_gray_def ae e2 by (simp add: final_def)
  from st2 have same: "blurredBuffer p2 = blurredBuffer p1" by simp
  have "\<not> buffer_step 1 3 s1 (blurredBuffer p1) s2 (blurredBuffer p2)"
  proof
    assume "buffer_step 1 3 s1 (blurredBuffer p1) s2 (blurredBuffer p2)"
    then have "rows (blurredBuffer p2) = 3" by (auto dest: buffer_step_shape)
    with same sh show False by simp
  qed
  then have "\<not> every_buffer_step (ToGray frame0 1 3) (p1, s1) (p2, s2)" by simp
  then show ?thesis
    unfolding ae ag using v1 v2 r1 e2 same sh by (simp add: returned_def)
qed

text \<open>
  Claim C6. Repeating edge detection on the same frame, with the same shape and the same
  thresholds, on one processor gives the same byte sequence every time: \<open>n\<close> calls in a
  row return \<open>n\<close> copies of the bytes that the library's blur and Canny routines compute
  from the frame, whatever the buffers held before. The library routines are functions of
  their arguments.
\<close>

theorem toEdges_repeatable:
  assumes "processor_ok s p" and "valid_frame yuv w h"
  shows "\<exists>p' s'.
      run lib (replicate n (ToEdges yuv w h)) (p, s) =
        Ok (replicate n (edges_out lib (cannyThreshold1 p) (cannyThreshold2 p)
                           (cannyApertureSize p) w h yuv)) (p', s')"
  using assms(1)
proof (induction n arbitrary: p s)
  case 0
  show ?case by simp
next
  case (Suc n)
  from exec_edges [OF Suc.prems assms(2), of lib] obtain p1 s1 where
    e: "exec lib (ToEdges yuv w h) (p, s) =
          Ok (edges_out lib (cannyThreshold1 p) (cannyThreshold2 p) (cannyApertureSize p) w h yuv)
             (p1, s1)"
    and ok1: "processor_ok s1 p1"
    and cfg: "cannyThreshold1 p1 = cannyThreshold1 p" "cannyThreshold2 p1 = cannyThreshold2 p"
      "cannyApertureSize p1 = cannyApertureSize p"
    by blast
  from Suc.IH [OF ok1] cfg obtain p' s' where
    "run lib (replicate n (ToEdges yuv w h)) (p1, s1) =
       Ok (replicate n (edges_out lib (cannyThreshold1 p) (cannyThreshold2 p)
                          (cannyApertureSize p) w h yuv)) (p', s')"
    by auto
  with e show ?case by (simp add: then_do_def)
qed

theorem toEdges_repeatable_witness:
  "processor_ok (snd (EdgeProcessor_new sys0)) (fst (EdgeProcessor_new sys0)) \<and>
   valid_frame frame0 2 2 \<and>
   (\<exists>p' s'. run lib0 (replicate 3 (ToEdges frame0 2 2))
               (fst (EdgeProcessor_new sys0), snd (EdgeProcessor_new sys0)) =
             Ok [[0, 255, 0, 0], [0, 255, 0, 0], [0, 255, 0, 0]] (p', s'))"
proof -
  have E: "edges_out lib0 50 150 3 2 2 frame0 = [0, 255, 0, 0]"
    by (simp add: edges_out_def blur_out_def lib0_def frame0_def upt_rec)
  have r: "replicate 3 [0, 255, 0, 0 :: byte] = [[0, 255, 0, 0], [0, 255, 0, 0], [0, 255, 0, 0]]"
    by (simp add: numeral_3_eq_3)
  from toEdges_repeatable [OF processor_ok_new [of sys0] valid_frame0, where lib = lib0 and n = 3]
  show ?thesis
    unfolding EdgeProcessor_new_fields E r using processor_ok_new [of sys0] valid_frame0 by blast
qed

lemma buffer_step_from_empty:
  assumes "buffer_step w h s Mat_empty s' m'" "0 < w"
  shows "newly_allocated s m'"
  using assms by (auto simp: buffer_step_def Mat_empty_def newly_allocated_def split: option.splits)

lemma exec_keeps:
  assumes "processor_ok s p" "valid_call c" "keeps_thresholds c"
  shows "\<exists>out p' s'. exec lib c (p, s) = Ok out (p', s') \<and> processor_ok s' p' \<and>
     cannyThreshold1 p' = cannyThreshold1 p \<and> cannyThreshold2 p' = cannyThreshold2 p \<and>
     cannyApertureSize p' = cannyApertureSize p"
proof (cases c)
  case (ToGray yuv w h)
  with assms exec_gray [of s p yuv w h lib] show ?thesis by auto
next
  case (ToEdges yuv w h)
  with assms exec_edges [of s p yuv w h lib] show ?thesis by auto
next
  case (SetThresholds t1 t2)
  with assms(3) show ?thesis by simp
qed

lemma run_keeps:
  "list_all valid_call cs \<Longrightarrow> list_all keeps_thresholds cs \<Longrightarrow> processor_ok s p \<Longrightarrow>
   \<exists>outs p' s'. run lib cs (p, s) = Ok outs (p', s') \<and> processor_ok s' p' \<and>
     cannyThreshold1 p' = cannyThreshold1 p \<and> cannyThreshold2 p' = cannyThreshold2 p \<and>
     cannyApertureSize p' = cannyApertureSize p"
proof (induction cs arbitrary: p s)
  case Nil
  then show ?case by simp
next
  case (Cons c cs)
  from Cons.prems have vc: "valid_call c" "keeps_thresholds c"
    and vcs: "list_all valid_call cs" "list_all keeps_thresholds cs" by simp_all
  from exec_keeps [OF Cons.prems(3) vc, of lib] obtain out p1 s1 where
    e: "exec lib c (p, s) = Ok out (p1, s1)" and ok1: "processor_ok s1 p1"
    and cfg: "cannyThreshold1 p1 = cannyThreshold1 p" "cannyThreshold2 p1 = cannyThreshold2 p"
      "cannyApertureSize p1 = cannyApertureSize p"
    by blast
  from Cons.IH [OF vcs ok1] cfg obtain outs p' s' where
    "run lib cs (p1, s1) = Ok outs (p', s')" "processor_ok s' p'"
    "cannyThreshold1 p' = cannyThreshold1 p" "cannyThreshold2 p' = cannyThreshold2 p"
    "cannyApertureSize p' = cannyApertureSize p"
    by auto
  with e show ?case by (simp add: then_do_def)
qed

text \<open>
  Claim C10. A newly constructed processor has thresholds 50 and 150, aperture 3 and
  last-seen width and height 0. As long as no call has set the thresholds, edge detection
  computes Canny with 50, 150 and 3: as the first call, and after any valid gray
  conversions and edge detections. The first call, gray conversion or edge detection on
  a valid frame, puts every buffer it uses on a newly allocated block.
\<close>

theorem fresh_processor_defaults:
  assumes v: "valid_frame yuv w h"
    and cs: "list_all valid_call cs" "list_all keeps_thresholds cs"
  shows "cannyThreshold1 (fst (EdgeProcessor_new s)) = 50 \<and>
    cannyThreshold2 (fst (EdgeProcessor_new s)) = 150 \<and>
    cannyApertureSize (fst (EdgeProcessor_new s)) = 3 \<and>
    lastWidth (fst (EdgeProcessor_new s)) = 0 \<and> lastHeight (fst (EdgeProcessor_new s)) = 0 \<and>
    (\<exists>outs p1 s1 p' s'.
       run lib cs (EdgeProcessor_new s) = Ok outs (p1, s1) \<and>
       exec lib (ToEdges yuv w h) (p1, s1) = Ok (edges_out lib 50 150 3 w h yuv) (p', s')) \<and>
    (\<exists>p' s'. exec lib (ToEdges yuv w h) (EdgeProcessor_new s) =
               Ok (edges_out lib 50 150 3 w h yuv) (p', s') \<and>
       newly_allocated (snd (EdgeProcessor_new s)) (grayBuffer p') \<and>
       newly_allocated (snd (EdgeProcessor_new s)) (blurredBuffer p') \<and>
       newly_allocated (snd (EdgeProcessor_new s)) (edgesBuffer p')) \<and>
    (\<exists>p' s'. exec lib (ToGray yuv w h) (EdgeProcessor_new s) =
               Ok (take (nat (w * h)) yuv) (p', s') \<and>
       newly_allocated (snd (EdgeProcessor_new s)) (grayBuffer p'))"
proof -
  obtain p0 s0 where pair: "EdgeProcessor_new s = (p0, s0)" by (cases "EdgeProcessor_new s")
  note fl = EdgeProcessor_new_fields [of s, unfolded pair fst_conv]
  have ok0: "processor_ok s0 p0" using processor_ok_new [of s] by (simp add: pair)
  from v have w: "0 < w" by (simp add: valid_frame_def)
  from run_keeps [OF cs ok0, of lib] obtain outs p1 s1 where
    r: "run lib cs (p0, s0) = Ok outs (p1, s1)" and ok1: "processor_ok s1 p1"
    and cfg: "cannyThreshold1 p1 = 50" "cannyThreshold2 p1 = 150" "cannyApertureSize p1 = 3"
    unfolding fl by blast
  from exec_edges [OF ok1 v, of lib] obtain p2 s2 where
    later: "exec lib (ToEdges yuv w h) (p1, s1) = Ok (edges_out lib 50 150 3 w h yuv) (p2, s2)"
    unfolding cfg by blast
  from exec_edges [OF ok0 v, of lib] obtain p' s' where
    e: "exec lib (ToEdges yuv w h) (p0, s0) = Ok (edges_out lib 50 150 3 w h yuv) (p', s')"
    and st: "call_step (ToEdges yuv w h) (p0, s0) (p', s')"
    unfolding fl by blast
  from st fl have "buffer_step w h s0 Mat_empty s' (grayBuffer p')"
    "buffer_step w h s0 Mat_empty s' (blurredBuffer p')"
    "buffer_step w h s0 Mat_empty s' (edgesBuffer p')"
    by simp_all
  then have n: "newly_allocated s0 (grayBuffer p')" "newly_allocated s0 (blurredBuffer p')"
    "newly_allocated s0 (edgesBuffer p')"
    using w by (auto intro: buffer_step_from_empty)
  from exec_gray [OF ok0 v, of lib] obtain q' t' where
    g: "exec lib (ToGray yuv w h) (p0, s0) = Ok (take (nat (w * h)) yuv) (q', t')"
    and stg: "call_step (ToGray yuv w h) (p0, s0) (q', t')"
    by blast
  from stg fl have "buffer_step w h s0 Mat_empty t' (grayBuffer q')"
    by simp
  then have ng: "newly_allocated s0 (grayBuffer q')"
    using w by (rule buffer_step_from_empty)
  show ?thesis
    unfolding pair fst_conv snd_conv using fl r later e n g ng by blast
qed

theorem fresh_processor_defaults_witness:
  "valid_frame frame0 2 2 \<and> list_all valid_call [ToGray frame0 3 1, ToEdges frame0 1 2] \<and>
   list_all keeps_thresholds [ToGray frame0 3 1, ToEdges frame0 1 2] \<and>
   cannyThreshold1 (fst (EdgeProcessor_new sys0)) = 50 \<and>
   cannyThreshold2 (fst (EdgeProcessor_new sys0)) = 150 \<and>
   (\<exists>outs p1 s1 p' s'.
       run lib0 [ToGray frame0 3 1, ToEdges frame0 1 2] (EdgeProcessor_new sys0) =
         Ok outs (p1, s1) \<and>
       exec lib0 (ToEdges frame0 2 2) (p1, s1) = Ok [0, 255, 0, 0] (p', s')) \<and>
   (\<exists>p' s'. exec lib0 (ToEdges frame0 2 2) (EdgeProcessor_new sys0) = Ok [0, 255, 0, 0] (p', s'))"
proof -
  have E: "edges_out lib0 50 150 3 2 2 frame0 = [0, 255, 0, 0]"
    by (simp add: edges_out_def blur_out_def lib0_def frame0_def upt_rec)
  have h: "list_all valid_call [ToGray frame0 3 1, ToEdges frame0 1 2]"
    "list_all keeps_thresholds [ToGray frame0 3 1, ToEdges frame0 1 2]"
    by (simp_all add: valid_frame_def frame0_def INT_MAX_def)
  from fresh_processor_defaults [OF valid_frame0 h, where s = sys0 and lib = lib0]
    valid_frame0 h
  show ?thesis unfolding E by blast
qed

section \<open>The entry points\<close>

text \<open>
  Claim C3. For every frame, and every width and height of which one is zero or negative,
  \<^verbatim>\<open>processFrameCanny\<close> and \<^verbatim>\<open>processFrameGrayscale\<close> return the null array. The call
  returns normally (no undefined behaviour, so no crash), whatever the Java side does,
  and it creates the global processor if there was none and allocates nothing else.
\<close>

theorem invalid_dimensions_absent:
  assumes "width \<le> 0 \<or> height \<le> 0"
  shows "\<exists>p s'.
      processFrameCanny lib env inputData width height gs = Ok None (Some p, s') \<and>
      processFrameGrayscale env inputData width height gs = Ok None (Some p, s') \<and>
      p = fst (ensureEdgeProcessorInitialized gs) \<and>
      heap s' = heap (snd gs) \<and> brk s' = brk (snd gs)"
  using assms
  by (auto simp: processFrameCanny_def processFrameGrayscale_def process_frame_def
      ensureEdgeProcessorInitialized_def EdgeProcessor_new_def LOGE_def log_print_def Let_def
      split: option.splits prod.splits)

theorem invalid_dimensions_absent_witness:
  "((0::int) \<le> 0 \<or> (- 1::int) \<le> 0) \<and>
   (\<exists>p s'. processFrameCanny lib0 env0 [7, 7, 7] 0 (- 1) (None, sys0) = Ok None (Some p, s') \<and>
      processFrameGrayscale env0 [7, 7, 7] 0 (- 1) (None, sys0) = Ok None (Some p, s'))"
proof -
  have h: "(0::int) \<le> 0 \<or> (- 1::int) \<le> 0" by simp
  from invalid_dimensions_absent [OF h, of lib0 env0 "[7, 7, 7]" "(None, sys0)"] h
  show ?thesis by blast
qed

text \<open>
  Claim C4. The claim asks that a frame too short for the requested width and height be
  answered with the null array and a log line. The entry points check only the signs of
  width and height: on a frame of 3 bytes with width 2 and height 2 both of them reach
  \<^verbatim>\<open>memcpy\<close>, which reads 4 bytes from the 3 there are.
\<close>

theorem short_frame_reads_out_of_bounds:
  "processFrameGrayscale env0 [1, 2, 3] 2 2 (None, sys0) = Undefined OutOfBoundsRead \<and>
   processFrameCanny lib0 env0 [1, 2, 3] 2 2 (None, sys0) = Undefined OutOfBoundsRead"
  by (simp add: processFrameCanny_def processFrameGrayscale_def process_frame_def
      ensureEdgeProcessorInitialized_def EdgeProcessor_new_def Let_def env0_def sys0_def
      processGrayscale_def processCanny_def yuv420ToGray_def then_do_def Mat_create_def
      Mat_empty_def Mat_release_def alloc_def int_mul_def INT_MIN_def INT_MAX_def
      to_size_t_def memcpy_def Mat_fresh_def log_print_def)

text \<open>
  Claim C9. For every input \<^verbatim>\<open>processFrameToBitmap\<close> returns the null object, and it
  returns normally. Nothing the caller can observe changes: the global processor and the
  memory are as before. The one trace of the call is a debug line in the Android log,
  which the specification leaves out of its scope.
\<close>

theorem processFrameToBitmap_absent:
  "processFrameToBitmap inputData width height processingType (g, s) =
     Ok None (g, s\<lparr>logcat := logcat s @
        [(DEBUG, ''EdgeVision-Native'', ''processFrameToBitmap: %dx%d, type=%d'',
          [ArgInt width, ArgInt height, ArgInt processingType])]\<rparr>)"
  by (simp add: processFrameToBitmap_def LOGD_def log_print_def)

end
